theory Spec2Isabelle
  imports Main "HOL-Library.Multiset"
begin

section \<open>Python values and truthiness\<close>

text \<open>
  The arguments of \<^verbatim>\<open>Monitor._build_query\<close> are dynamically typed. The values a caller
  can pass for \<^verbatim>\<open>interval\<close>, \<^verbatim>\<open>start\<close>, \<^verbatim>\<open>end\<close> and \<^verbatim>\<open>max_samples\<close> are modelled by a
  small universe: \<^verbatim>\<open>None\<close>, an integer, a string, or a datetime (its payload is the number
  of seconds since some epoch). \<open>truthy\<close> is Python's truth value testing: \<^verbatim>\<open>None\<close>, \<^verbatim>\<open>0\<close>
  and the empty string are false, everything else, every datetime included, is true.
\<close>

datatype pyval = PyNone | PyInt int | PyStr string | PyDatetime int

fun truthy :: "pyval \<Rightarrow> bool" where
  "truthy PyNone = False"
| "truthy (PyInt n) = (n \<noteq> 0)"
| "truthy (PyStr s) = (s \<noteq> [])"
| "truthy (PyDatetime t) = True"

text \<open>
  A flag that starts as \<^verbatim>\<open>None\<close> and is later assigned a boolean
  (\<^verbatim>\<open>Monitor.current_supported\<close>, \<^verbatim>\<open>Monitor.summary_supported\<close>) is a \<open>bool option\<close>;
  in an \<^verbatim>\<open>if\<close> only \<^verbatim>\<open>True\<close> passes.
\<close>

fun truthy_flag :: "bool option \<Rightarrow> bool" where
  "truthy_flag None = False"
| "truthy_flag (Some b) = b"

section \<open>The query builder (Monitor.py)\<close>

text \<open>
  The part of the \<^verbatim>\<open>Monitor\<close> object that \<^verbatim>\<open>_build_query\<close> reads: the enabled historical
  sampling periods collected by \<^verbatim>\<open>manage_perf\<close> and the three provider fields assigned by
  \<^verbatim>\<open>query_provider\<close>. \<^verbatim>\<open>vm_view\<close> is the list of virtual machines \<^verbatim>\<open>query_provider\<close>
  takes its entity from. \<open>'e\<close> is the type of managed objects.
\<close>

record 'e monitor =
  vm_view :: "'e list"
  historical_intervals :: "int list"
  current_supported :: "bool option"
  summary_supported :: "bool option"
  refresh_rate :: int

text \<open>\<^verbatim>\<open>vim.PerformanceManager.MetricId\<close> and \<^verbatim>\<open>vim.PerformanceManager.QuerySpec\<close>.\<close>

record metric_id =
  counterId :: int
  instance_sel :: string

record 'e query_spec =
  entity :: 'e
  metricId :: "metric_id list"
  intervalId :: pyval
  startTime :: pyval
  endTime :: pyval
  maxSample :: pyval
  format :: string

text \<open>
  The exceptions \<^verbatim>\<open>_build_query\<close> raises, by their Python class. The two \<^verbatim>\<open>ValueError\<close>s
  are kept apart: the one for the interval carries what its message is formatted from, the
  offending value and the list \<^verbatim>\<open>self.historical_intervals\<close> that the message joins with
  commas. \<^verbatim>\<open>TypeError\<close> is raised for missing time bounds and, with another message, by
  the typed fields of the query specification. \<^verbatim>\<open>IndexError\<close> and \<^verbatim>\<open>KeyError\<close> are raised
  by subscripts elsewhere in the module.
\<close>

datatype error =
    TypeError string
  | ValueError string
  | ValueError_interval pyval "int list"
  | RuntimeError string
  | IndexError
  | KeyError int

datatype warning = RuntimeWarning string

definition missing_bounds_msg :: string where
  "missing_bounds_msg = ''A time range or sample limit should be specified''"

definition invalid_format_msg :: string where
  "invalid_format_msg =
     ''Invalid format, can either be '' @ [CHR 0x27] @ ''normal'' @ [CHR 0x27] @ '' or ''
       @ [CHR 0x27] @ ''csv'' @ [CHR 0x27]"

definition unavailable_msg :: string where
  "unavailable_msg = ''Statistics unavailable for this entity!''"

definition max_samples_msg :: string where
  "max_samples_msg = ''max_samples will not apply because interval specified is not real-time, use a time range instead''"

text \<open>\<^verbatim>\<open>interval in self.historical_intervals\<close>: Python compares the value with each integer.\<close>

definition interval_in :: "pyval \<Rightarrow> int list \<Rightarrow> bool" where
  "interval_in interval hs = (interval \<in> set (map PyInt hs))"

text \<open>
  The fields of a \<^verbatim>\<open>QuerySpec\<close> are typed. pyVmomi checks a value when it is assigned to a
  field of a data object and raises \<^verbatim>\<open>TypeError\<close> when the value is not of the type the
  field declares; the fields assigned in lines 352-355 are optional, so \<^verbatim>\<open>None\<close> is accepted
  by each. \<^verbatim>\<open>intervalId\<close> and \<^verbatim>\<open>maxSample\<close> are integers, \<^verbatim>\<open>startTime\<close> and \<^verbatim>\<open>endTime\<close>
  are datetimes. The wording of the library's message is not reproduced:
  \<open>type_mismatch_msg\<close> only names the field. The entity, the metric ids and the format
  have their types by construction here.
\<close>

fun is_int_or_none :: "pyval \<Rightarrow> bool" where
  "is_int_or_none PyNone = True"
| "is_int_or_none (PyInt n) = True"
| "is_int_or_none (PyStr s) = False"
| "is_int_or_none (PyDatetime t) = False"

fun is_datetime_or_none :: "pyval \<Rightarrow> bool" where
  "is_datetime_or_none PyNone = True"
| "is_datetime_or_none (PyInt n) = False"
| "is_datetime_or_none (PyStr s) = False"
| "is_datetime_or_none (PyDatetime t) = True"

definition type_mismatch_msg :: "string \<Rightarrow> string" where
  "type_mismatch_msg field = ''For '' @ field @ '' a value of another type is expected''"

text \<open>
  \<^verbatim>\<open>_build_query\<close> (Monitor.py, lines 311-357). \<^verbatim>\<open>counter_ids\<close> and \<^verbatim>\<open>instances\<close> are
  optional lists (\<open>None\<close> is Python's \<^verbatim>\<open>None\<close>). The result is the exception raised, or
  the query specification together with the warnings issued on the way
  (\<^verbatim>\<open>warnings.warn\<close> under the default filter reports and returns). The warning of line 342
  is issued before the fields are assigned, so a call that fails in an assignment has
  warned already; the result of a failing call records the exception only. The assignments
  of lines 352-355 are checked in their order.
\<close>

definition build_query ::
  "'e monitor \<Rightarrow> 'e \<Rightarrow> int list option \<Rightarrow> string list option \<Rightarrow> pyval \<Rightarrow> pyval \<Rightarrow> pyval
     \<Rightarrow> pyval \<Rightarrow> string \<Rightarrow> error + ('e query_spec \<times> warning list)" where
  "build_query self ent counter_ids instances interval start end' max_samples fmt =
    (if \<not> (truthy max_samples \<or> truthy start) then Inl (TypeError missing_bounds_msg)
     else if fmt \<notin> set [''csv'', ''normal''] then Inl (ValueError invalid_format_msg)
     else
       (case
          (if truthy_flag (current_supported self) then
             (if interval = PyNone then Inr (PyInt (refresh_rate self))
              else if interval \<noteq> PyInt (refresh_rate self)
                      \<and> \<not> interval_in interval (historical_intervals self)
                   then Inl (ValueError_interval interval (historical_intervals self))
              else Inr interval)
           else if truthy_flag (summary_supported self) then
             (if \<not> interval_in interval (historical_intervals self)
              then Inl (ValueError_interval interval (historical_intervals self))
              else Inr interval)
           else Inl (RuntimeError unavailable_msg))
        of Inl e \<Rightarrow> Inl e
         | Inr interval' \<Rightarrow>
            (let ws = (if interval_in interval' (historical_intervals self) \<and> truthy max_samples
                       then [RuntimeWarning max_samples_msg] else []);
                 counter_ids' = (case counter_ids of None \<Rightarrow> [] | Some cs \<Rightarrow> cs);
                 instances' = (case instances of None \<Rightarrow> [''*''] | Some is \<Rightarrow> is);
                 query = \<lparr> entity = ent,
                           metricId = concat (map (\<lambda>c. map (\<lambda>i. \<lparr> counterId = c, instance_sel = i \<rparr>)
                                                        instances') counter_ids'),
                           intervalId = interval',
                           startTime = start,
                           endTime = end',
                           maxSample = max_samples,
                           format = fmt \<rparr>
             in if \<not> is_int_or_none interval'
                  then Inl (TypeError (type_mismatch_msg ''intervalId''))
                else if \<not> is_datetime_or_none start
                  then Inl (TypeError (type_mismatch_msg ''startTime''))
                else if \<not> is_datetime_or_none end'
                  then Inl (TypeError (type_mismatch_msg ''endTime''))
                else if \<not> is_int_or_none max_samples
                  then Inl (TypeError (type_mismatch_msg ''maxSample''))
                else Inr (query, ws))))"

text \<open>
  \<^verbatim>\<open>query_provider\<close> (lines 166-173). The provider summary comes from the external
  \<^verbatim>\<open>QueryPerfProviderSummary\<close>, a parameter here; it is asked once, for \<^verbatim>\<open>self.vm_view[0]\<close>,
  and the subscript raises \<^verbatim>\<open>IndexError\<close> on an empty view.
\<close>

record provider_summary =
  currentSupported :: bool
  summarySupported :: bool
  refreshRate :: int

definition query_provider ::
  "('e \<Rightarrow> provider_summary) \<Rightarrow> 'e monitor \<Rightarrow> error + 'e monitor" where
  "query_provider QueryPerfProviderSummary self =
    (case vm_view self of
       [] \<Rightarrow> Inl IndexError
     | vm0 # _ \<Rightarrow>
         (let provider = QueryPerfProviderSummary vm0
          in Inr (self\<lparr> current_supported := Some (currentSupported provider),
                        summary_supported := Some (summarySupported provider),
                        refresh_rate := refreshRate provider \<rparr>)))"

section \<open>Nodes and the hierarchy (Tree.py)\<close>

text \<open>
  Python objects are reached through references. A \<open>store\<close> is the list of all \<^verbatim>\<open>Node\<close>
  objects created so far and a reference is a position in it, so two references to the same
  position are the same object and a write through one is seen through the other. A \<^verbatim>\<open>Node\<close>
  holds its parents and children as lists of references. \<open>node_value\<close> is the field
  \<^verbatim>\<open>value\<close> and \<open>node_id\<close> the field \<^verbatim>\<open>id\<close>.
\<close>

type_synonym ref = nat

record 'v node =
  parents :: "ref list"
  node_value :: 'v
  children :: "ref list"
  node_id :: nat
  visited :: bool
  span_parent :: "ref option"
  distance :: int

type_synonym 'v store = "'v node list"

text \<open>The store together with the class attribute \<^verbatim>\<open>Node.global_id\<close>.\<close>

record 'v world =
  heap :: "'v store"
  global_id :: nat

definition init_world :: "'v world" where
  "init_world = \<lparr> heap = [], global_id = 1 \<rparr>"

text \<open>\<^verbatim>\<open>Node.__init__\<close>: the new object is put at the end of the store.\<close>

definition Node :: "ref list \<Rightarrow> 'v \<Rightarrow> ref list \<Rightarrow> 'v world \<Rightarrow> ref \<times> 'v world" where
  "Node ps v cs w =
     (length (heap w),
      \<lparr> heap = heap w @ [\<lparr> parents = ps, node_value = v, children = cs,
                            node_id = global_id w, visited = False, span_parent = None,
                            distance = 0 \<rparr>],
        global_id = global_id w + 1 \<rparr>)"

definition is_root :: "'v node \<Rightarrow> bool" where
  "is_root n = (length (parents n) = 0)"

definition is_leaf :: "'v node \<Rightarrow> bool" where
  "is_leaf n = (length (children n) = 0)"

definition reset_id :: "'v world \<Rightarrow> 'v world" where
  "reset_id w = w\<lparr> global_id := 1 \<rparr>"

text \<open>
  A store is well formed when every reference held in it points into it. Python cannot
  build any other store; a list of records can, so the traversal below tests
  \<open>c < length h\<close> before it reads through a child reference \<open>c\<close>, a test that is always
  true on a well-formed store.
\<close>

definition wf_store :: "'v store \<Rightarrow> bool" where
  "wf_store h = (\<forall>n \<in> set h. \<forall>c \<in> set (children n). c < length h)"

text \<open>
  The body of \<^verbatim>\<open>for c in u.children\<close> in \<^verbatim>\<open>DCTree._bfs\<close> (lines 83-88), run over the
  children \<open>cs\<close> still to come, with the store and the queue it updates.
\<close>

fun visit_children :: "ref \<Rightarrow> ref list \<Rightarrow> 'v store \<Rightarrow> ref list \<Rightarrow> 'v store \<times> ref list" where
  "visit_children u [] h q = (h, q)"
| "visit_children u (c # cs) h q =
     (if c < length h \<and> \<not> visited (h ! c)
      then visit_children u cs
             (h[c := (h ! c)\<lparr> visited := True, span_parent := Some u,
                               distance := distance (h ! u) + 1 \<rparr>])
             (q @ [c])
      else visit_children u cs h q)"

definition unvisited :: "'v store \<Rightarrow> nat" where
  "unvisited h = card {i. i < length h \<and> \<not> visited (h ! i)}"

lemma unvisited_mark:
  assumes "c < length h" "\<not> visited (h ! c)" "visited x"
  shows "Suc (unvisited (h[c := x])) = unvisited h"
proof -
  have eq: "{i. i < length (h[c := x]) \<and> \<not> visited (h[c := x] ! i)}
            = {i. i < length h \<and> \<not> visited (h ! i)} - {c}"
    using assms by (auto simp: nth_list_update)
  have fin: "finite {i. i < length h \<and> \<not> visited (h ! i)}" by simp
  have mem: "c \<in> {i. i < length h \<and> \<not> visited (h ! i)}" using assms by simp
  show ?thesis
    unfolding unvisited_def eq using fin mem
    by (metis card_Suc_Diff1)
qed

lemma visit_children_measure:
  "visit_children u cs h q = (h', q') \<Longrightarrow> unvisited h' + length q' = unvisited h + length q"
proof (induction cs arbitrary: h q)
  case Nil
  then show ?case by simp
next
  case (Cons c cs)
  show ?case
  proof (cases "c < length h \<and> \<not> visited (h ! c)")
    case True
    let ?x = "(h ! c)\<lparr> visited := True, span_parent := Some u, distance := distance (h ! u) + 1 \<rparr>"
    from True Cons.prems have "visit_children u cs (h[c := ?x]) (q @ [c]) = (h', q')" by simp
    from Cons.IH [OF this]
    have "unvisited h' + length q' = unvisited (h[c := ?x]) + Suc (length q)" by simp
    moreover have "Suc (unvisited (h[c := ?x])) = unvisited h"
      using True by (intro unvisited_mark) simp_all
    ultimately show ?thesis by simp
  next
    case False
    with Cons.prems have "visit_children u cs h q = (h', q')" by auto
    from Cons.IH [OF this] show ?thesis .
  qed
qed

text \<open>
  The \<^verbatim>\<open>while not q.empty()\<close> loop of \<^verbatim>\<open>DCTree._bfs\<close> (lines 80-88). The queue is a list,
  \<^verbatim>\<open>q.get()\<close> takes its head and \<^verbatim>\<open>q.put\<close> appends. The function returns the final store
  and the nodes in the order the generator yields them. The consumer of the generator in
  \<^verbatim>\<open>update_struct\<close> reads only \<^verbatim>\<open>children\<close> and writes only the lists of the tree, neither of
  which the traversal touches, so running the traversal to its end first gives the same
  store and the same lists. Every pass takes one node from the queue and adds exactly the
  nodes it marks, so the number of unvisited nodes plus the length of the queue decreases.
\<close>

function bfs_loop :: "'v store \<Rightarrow> ref list \<Rightarrow> 'v store \<times> ref list" where
  "bfs_loop h [] = (h, [])"
| "bfs_loop h (u # q) =
     (case visit_children u (children (h ! u)) h q of
        (h', q') \<Rightarrow> (case bfs_loop h' q' of (h'', ys) \<Rightarrow> (h'', u # ys)))"
  by pat_completeness auto
termination
proof (relation "measure (\<lambda>(h, q). unvisited h + length q)", goal_cases)
  case 1
  show ?case by simp
next
  case (2 h u q h' q')
  then have eq: "visit_children u (children (h ! u)) h q = (h', q')" by simp
  from visit_children_measure [OF eq] show ?case by (simp add: eq)
qed

text \<open>\<^verbatim>\<open>DCTree._bfs\<close> (lines 70-88): mark the start node, put it in the queue, run the loop.\<close>

definition bfs :: "'v store \<Rightarrow> ref \<Rightarrow> 'v store \<times> ref list" where
  "bfs h root' = bfs_loop (h[root' := (h ! root')\<lparr> visited := True \<rparr>]) [root']"

text \<open>The object \<^verbatim>\<open>DCTree\<close>: its root and the two derived lists.\<close>

record DCTree =
  root :: ref
  nodes :: "ref list"
  leaf :: "ref list"

text \<open>
  \<^verbatim>\<open>DCTree.update_struct\<close> (lines 109-122). \<open>reset_visited\<close> is the first loop,
  \<open>collect\<close> the body of the second one for a yielded node \<open>n\<close>.
\<close>

definition reset_visited :: "ref list \<Rightarrow> 'v store \<Rightarrow> 'v store" where
  "reset_visited ns h = fold (\<lambda>n h. h[n := (h ! n)\<lparr> visited := False \<rparr>]) ns h"

definition collect :: "'v store \<Rightarrow> ref \<Rightarrow> DCTree \<Rightarrow> DCTree" where
  "collect h n self =
     (let self' = (if is_leaf (h ! n) then self\<lparr> leaf := leaf self @ [n] \<rparr> else self)
      in self'\<lparr> nodes := nodes self' @ [n] \<rparr>)"

definition update_struct :: "'v store \<Rightarrow> DCTree \<Rightarrow> ref option \<Rightarrow> 'v store \<times> DCTree" where
  "update_struct h self root_opt =
     (let root' = (case root_opt of None \<Rightarrow> root self | Some r \<Rightarrow> r);
          h1 = reset_visited (nodes self) h
      in case bfs h1 root' of (h2, ys) \<Rightarrow> (h2, fold (collect h2) ys self))"

text \<open>
  \<^verbatim>\<open>DCTree.__init__\<close> (lines 56-68). A reference always denotes a \<^verbatim>\<open>Node\<close>, so the
  \<^verbatim>\<open>isinstance\<close> test cannot fail here.
\<close>

definition DCTree_init :: "'v store \<Rightarrow> ref \<Rightarrow> error + ('v store \<times> DCTree)" where
  "DCTree_init h root' =
     (if \<not> is_root (h ! root') then Inl (ValueError ''Not root'')
      else Inr (update_struct h \<lparr> root = root', nodes = [], leaf = [] \<rparr> None))"

text \<open>\<^verbatim>\<open>DCTree.search\<close> (lines 124-132): the first node of the list with the given id.\<close>

definition search :: "'v store \<Rightarrow> DCTree \<Rightarrow> nat \<Rightarrow> ref option" where
  "search h self id' = find (\<lambda>n. node_id (h ! n) = id') (nodes self)"

section \<open>The inventory builder (Monitor.py)\<close>

text \<open>
  The managed objects of the inventory, as far as \<^verbatim>\<open>_build_dc_tree\<close> reads them: a virtual
  machine, a host with the virtual machines on it (\<^verbatim>\<open>vm\<close>), a compute resource with its
  hosts (\<^verbatim>\<open>host\<close>), a folder with its entries (\<^verbatim>\<open>childEntity\<close>) and a datacenter with its
  \<^verbatim>\<open>hostFolder\<close>. An entry of a host folder is a folder again, a host or a compute resource.
  The first field of each is the name.
\<close>

datatype virtual_machine = VirtualMachine string

datatype host_system = HostSystem string (vm: "virtual_machine list")

datatype compute_resource = ComputeResource string (host: "host_system list")

datatype host_or_cr = AHost host_system | ACompute compute_resource

datatype folder_or_object = Folder (childEntity: "folder_or_object list") | Object host_or_cr

datatype datacenter = Datacenter string (hostFolder: folder_or_object)

text \<open>What a \<^verbatim>\<open>Node\<close> of the inventory wraps.\<close>

datatype managed_object =
    MDatacenter datacenter
  | MCompute compute_resource
  | MHost host_system
  | MVm virtual_machine

text \<open>
  \<^verbatim>\<open>get_child_objects\<close> (lines 97-112): \<^verbatim>\<open>hasattr(x, 'childEntity')\<close> holds of folders only;
  the list \<^verbatim>\<open>results\<close> is threaded through the recursive calls.
\<close>

fun get_child_objects :: "folder_or_object \<Rightarrow> host_or_cr list \<Rightarrow> host_or_cr list" where
  "get_child_objects (Folder entries) results = fold get_child_objects entries results"
| "get_child_objects (Object obj) results = results @ [obj]"

text \<open>\<^verbatim>\<open>p.children.append(c)\<close> for the node \<open>p\<close>.\<close>

definition append_child :: "ref \<Rightarrow> ref \<Rightarrow> 'v world \<Rightarrow> 'v world" where
  "append_child p c w =
     w\<lparr> heap := (heap w)[p := (heap w ! p)\<lparr> children := children (heap w ! p) @ [c] \<rparr>] \<rparr>"

text \<open>
  The loops of \<^verbatim>\<open>_build_dc_tree\<close> (lines 114-137), innermost first: \<open>add_vm\<close> is the body of
  \<^verbatim>\<open>for vm in h.vm\<close> for the host node \<open>p\<close> (lines 127-129 and 134-136), \<open>add_host\<close> the
  body of \<^verbatim>\<open>for h in h_cr.host\<close> (lines 131-136), \<open>add_h_cr\<close> the body of
  \<^verbatim>\<open>for h_cr in host_folder_list\<close> (lines 123-136).
\<close>

definition add_vm :: "ref \<Rightarrow> virtual_machine \<Rightarrow> managed_object world \<Rightarrow> managed_object world" where
  "add_vm p v w = (case Node [p] (MVm v) [] w of (host_child, w') \<Rightarrow> append_child p host_child w')"

definition add_host :: "ref \<Rightarrow> host_system \<Rightarrow> managed_object world \<Rightarrow> managed_object world" where
  "add_host p h w =
     (case Node [p] (MHost h) [] w of
        (cr_child, w') \<Rightarrow> fold (add_vm cr_child) (vm h) (append_child p cr_child w'))"

definition add_h_cr :: "ref \<Rightarrow> host_or_cr \<Rightarrow> managed_object world \<Rightarrow> managed_object world" where
  "add_h_cr rt h_cr w =
     (case h_cr of
        AHost h \<Rightarrow>
          (case Node [rt] (MHost h) [] w of
             (root_child, w') \<Rightarrow> fold (add_vm root_child) (vm h) (append_child rt root_child w'))
      | ACompute cr \<Rightarrow>
          (case Node [rt] (MCompute cr) [] w of
             (root_child, w') \<Rightarrow> fold (add_host root_child) (host cr) (append_child rt root_child w')))"

definition build_dc_tree ::
  "datacenter \<Rightarrow> managed_object world \<Rightarrow> error + (DCTree \<times> managed_object world)" where
  "build_dc_tree dc w =
     (case Node [] (MDatacenter dc) [] w of
        (rt, w1) \<Rightarrow>
          (let host_folder_list = get_child_objects (hostFolder dc) [];
               w2 = fold (add_h_cr rt) host_folder_list w1
           in case DCTree_init (heap w2) rt of
                Inl e \<Rightarrow> Inl e
              | Inr (h, t) \<Rightarrow> Inr (t, w2\<lparr> heap := h \<rparr>)))"

section \<open>Real-time statistics and their table (Monitor.py)\<close>

text \<open>
  What the provider returns for one query specification
  (\<^verbatim>\<open>vim.PerformanceManager.EntityMetric\<close>): the sample descriptions \<^verbatim>\<open>sampleInfo\<close> and one
  series per metric, with its \<^verbatim>\<open>id\<close> and its values. \<open>series_id\<close> is the field \<^verbatim>\<open>id\<close> and
  \<open>series_value\<close>, \<open>metric_value\<close> are the two fields called \<^verbatim>\<open>value\<close>.
\<close>

record sample_info =
  timestamp :: int

record metric_series =
  series_id :: metric_id
  series_value :: "int list"

record entity_metric =
  sampleInfo :: "sample_info list"
  metric_value :: "metric_series list"

text \<open>
  One row of the \<^verbatim>\<open>DataFrame\<close>; the column \<^verbatim>\<open>name\<close> is empty until it is assigned. A frame
  is the list of its rows, each with its index label.
\<close>

record row =
  row_key :: int
  row_instance :: string
  row_timestamp :: int
  row_value :: int
  row_unit :: string
  row_name :: "string option"

type_synonym dataframe = "(nat \<times> row) list"

text \<open>
  The library operations used on the frame: \<^verbatim>\<open>append(new_row, ignore_index=True)\<close> labels
  the new row with the next position, \<^verbatim>\<open>sort_values(by='key')\<close> orders the rows by the column
  \<^verbatim>\<open>key\<close> and keeps each row's label, \<^verbatim>\<open>reset_index(drop=True)\<close> relabels the rows
  \<open>0, 1, 2, \<dots>\<close> in their order, and an assignment to a column sets it in every row. The
  library does not promise an order among rows of equal key; the insertion sort used here
  keeps them in their order, and nothing below depends on that.
\<close>

definition df_append :: "dataframe \<Rightarrow> row \<Rightarrow> dataframe" where
  "df_append data r = data @ [(length data, r)]"

definition sort_values_key :: "dataframe \<Rightarrow> dataframe" where
  "sort_values_key data = sort_key (\<lambda>(i, r). row_key r) data"

definition reset_index :: "dataframe \<Rightarrow> dataframe" where
  "reset_index data = zip [0 ..< length data] (map snd data)"

definition set_name :: "string \<Rightarrow> dataframe \<Rightarrow> dataframe" where
  "set_name s data = map (\<lambda>(i, r). (i, r\<lparr> row_name := Some s \<rparr>)) data"

text \<open>A loop whose body may raise: the first exception ends it.\<close>

fun for_each :: "('a \<Rightarrow> 's \<Rightarrow> error + 's) \<Rightarrow> 'a list \<Rightarrow> 's \<Rightarrow> error + 's" where
  "for_each body [] s = Inr s"
| "for_each body (x # xs) s =
     (case body x s of Inl e \<Rightarrow> Inl e | Inr s' \<Rightarrow> for_each body xs s')"

text \<open>
  \<^verbatim>\<open>realtime_stats\<close> (lines 359-369). \<^verbatim>\<open>QueryPerf\<close> is the external call, a parameter; the
  warnings of \<^verbatim>\<open>_build_query\<close> are passed on.
\<close>

definition realtime_stats ::
  "('e query_spec list \<Rightarrow> entity_metric list) \<Rightarrow> 'e monitor \<Rightarrow> 'e \<Rightarrow> int list option
     \<Rightarrow> string list option \<Rightarrow> error + (entity_metric list \<times> warning list)" where
  "realtime_stats QueryPerf self ent counter_ids instances =
     (case build_query self ent counter_ids instances PyNone PyNone PyNone (PyInt 1) ''normal'' of
        Inl e \<Rightarrow> Inl e
      | Inr (query, ws) \<Rightarrow> Inr (QueryPerf [query], ws))"

text \<open>
  \<^verbatim>\<open>latest_stats_by_specs\<close> (lines 387-407). \<open>unit_label\<close> is the catalogue
  \<^verbatim>\<open>self.all_counters\<close> reduced to what is read from it, the label of the unit of a counter;
  a key that is not in it raises \<^verbatim>\<open>KeyError\<close>. \<open>new_row\<close> is the body of the innermost loop
  for the position \<open>i\<close>: the dictionary is evaluated in the order written, the unit before
  \<^verbatim>\<open>val[i]\<close>, which raises \<^verbatim>\<open>IndexError\<close> when the series is shorter than \<^verbatim>\<open>sampleInfo\<close>.
  \<open>name_of\<close> is the attribute \<^verbatim>\<open>name\<close> of the entity.
\<close>

definition new_row ::
  "(int \<rightharpoonup> string) \<Rightarrow> sample_info list \<Rightarrow> metric_series \<Rightarrow> nat \<Rightarrow> dataframe \<Rightarrow> error + dataframe" where
  "new_row unit_label sample_info v i data =
     (let key = counterId (series_id v); inst = instance_sel (series_id v); val = series_value v
      in case unit_label key of
           None \<Rightarrow> Inl (KeyError key)
         | Some u \<Rightarrow>
             (if i < length val
              then Inr (df_append data \<lparr> row_key = key, row_instance = inst,
                                         row_timestamp = timestamp (sample_info ! i),
                                         row_value = val ! i, row_unit = u, row_name = None \<rparr>)
              else Inl IndexError))"

definition collect_rows :: "(int \<rightharpoonup> string) \<Rightarrow> entity_metric list \<Rightarrow> error + dataframe" where
  "collect_rows unit_label results =
     for_each (\<lambda>r. for_each (\<lambda>v. for_each (new_row unit_label (sampleInfo r) v)
                                      [0 ..< length (sampleInfo r)])
                             (metric_value r))
              results []"

definition latest_stats_by_specs ::
  "('e query_spec list \<Rightarrow> entity_metric list) \<Rightarrow> (int \<rightharpoonup> string) \<Rightarrow> ('e \<Rightarrow> string) \<Rightarrow> 'e monitor
     \<Rightarrow> 'e \<Rightarrow> int list option \<Rightarrow> string list option \<Rightarrow> error + (dataframe \<times> warning list)" where
  "latest_stats_by_specs QueryPerf unit_label name_of self ent counter_ids instances =
     (case realtime_stats QueryPerf self ent counter_ids instances of
        Inl e \<Rightarrow> Inl e
      | Inr (results, ws) \<Rightarrow>
          (case collect_rows unit_label results of
             Inl e \<Rightarrow> Inl e
           | Inr data \<Rightarrow> Inr (set_name (name_of ent) (reset_index (sort_values_key data)), ws)))"

section \<open>Concrete inputs\<close>

text \<open>
  The provider of the specification's end-to-end scenario, one that offers historical
  statistics only, and one that offers none. Entities are numbers here.
\<close>

definition scenario_monitor :: "nat monitor" where
  "scenario_monitor = \<lparr> vm_view = [0], historical_intervals = [300, 1800, 7200, 86400],
      current_supported = Some True, summary_supported = Some True, refresh_rate = 20 \<rparr>"



section \<open>Reachability and the loop invariant of the traversal\<close>

text \<open>
  \<open>reach h r v\<close>: the node \<open>v\<close> is the node \<open>r\<close> or is reached from it along child
  references of the store \<open>h\<close>.
\<close>

inductive reach :: "'v store \<Rightarrow> ref \<Rightarrow> ref \<Rightarrow> bool" for h :: "'v store" and r :: ref where
  reach_start: "reach h r r"
| reach_child: "reach h r u \<Longrightarrow> u < length h \<Longrightarrow> c \<in> set (children (h ! u)) \<Longrightarrow> c < length h
                \<Longrightarrow> reach h r c"

text \<open>
  The invariant of the loop of \<^verbatim>\<open>_bfs\<close> started at \<open>r\<close> in the store \<open>h0\<close>, for the current
  store \<open>h\<close>, the nodes \<open>ds\<close> yielded so far and the queue \<open>q\<close>: the child lists are
  those of \<open>h0\<close>; the visited nodes are exactly those of \<open>ds\<close> and \<open>q\<close>, each once; the
  children of a yielded node are visited; every visited node is reachable; and every visited
  node but \<open>r\<close> has as spanning-tree parent the first yielded node that has it as a child,
  and that node's distance plus one.
\<close>

definition bfs_inv :: "ref \<Rightarrow> 'v store \<Rightarrow> 'v store \<Rightarrow> ref list \<Rightarrow> ref list \<Rightarrow> bool" where
  "bfs_inv r h0 h ds q \<longleftrightarrow>
     length h = length h0 \<and> map children h = map children h0 \<and>
     distinct (ds @ q) \<and> r \<in> set (ds @ q) \<and> (\<forall>v \<in> set (ds @ q). v < length h) \<and>
     (\<forall>i < length h. visited (h ! i) \<longleftrightarrow> i \<in> set (ds @ q)) \<and>
     (\<forall>p \<in> set ds. \<forall>c \<in> set (children (h0 ! p)). c < length h \<longrightarrow> c \<in> set (ds @ q)) \<and>
     (\<forall>v \<in> set (ds @ q). reach h0 r v) \<and>
     (\<forall>v \<in> set (ds @ q). v \<noteq> r \<longrightarrow>
        (\<exists>p. find (\<lambda>p. v \<in> set (children (h0 ! p))) ds = Some p \<and>
             span_parent (h ! v) = Some p \<and> distance (h ! v) = distance (h ! p) + 1))"

section \<open>Concrete stores\<close>

text \<open>
  A node as \<^verbatim>\<open>Node.__init__\<close> leaves it. \<open>diamond\<close> is a datacenter with two children that
  both list the same node as their child; \<open>small_tree\<close> is a datacenter with one host.
  \<open>first_refresh\<close> is the call of \<^verbatim>\<open>update_struct\<close> made by the constructor of
  \<^verbatim>\<open>DCTree\<close> on \<open>small_tree\<close>, \<open>second_refresh\<close> a second call on its result.
\<close>

definition fresh_node :: "ref list \<Rightarrow> 'v \<Rightarrow> ref list \<Rightarrow> nat \<Rightarrow> 'v node" where
  "fresh_node ps v cs i =
     \<lparr> parents = ps, node_value = v, children = cs, node_id = i, visited = False,
       span_parent = None, distance = 0 \<rparr>"

definition diamond :: "string store" where
  "diamond = [fresh_node [] ''dc'' [1, 2] 1, fresh_node [0] ''a'' [3] 2,
              fresh_node [0] ''b'' [3] 3, fresh_node [1, 2] ''vm'' [] 4]"

definition small_tree :: "string store" where
  "small_tree = [fresh_node [] ''dc'' [1] 1, fresh_node [0] ''host'' [] 2]"

definition first_refresh :: "string store \<times> DCTree" where
  "first_refresh = update_struct small_tree \<lparr> root = 0, nodes = [], leaf = [] \<rparr> None"

definition second_refresh :: "string store \<times> DCTree" where
  "second_refresh = update_struct (fst first_refresh) (snd first_refresh) None"

section \<open>The shape of a built hierarchy\<close>

text \<open>
  A tree of values. \<open>renders h lo ps c T\<close> reads the store \<open>h\<close> at the node \<open>c\<close> against
  the tree \<open>T\<close>: \<open>c\<close> is a node of the store at a position from \<open>lo\<close> on, it wraps the
  value at the root of \<open>T\<close>, its list of parents is \<open>ps\<close>, and its children are, one by one
  and in order, nodes that render the subtrees of \<open>T\<close> and have \<open>c\<close> as their only parent.
\<close>

datatype 'a rose = Rose 'a "'a rose list"

fun renders :: "'v store \<Rightarrow> nat \<Rightarrow> ref list \<Rightarrow> ref \<Rightarrow> 'v rose \<Rightarrow> bool"
  and renders_list :: "'v store \<Rightarrow> nat \<Rightarrow> ref \<Rightarrow> ref list \<Rightarrow> 'v rose list \<Rightarrow> bool" where
  "renders h lo ps c (Rose v ts) =
     (lo \<le> c \<and> c < length h \<and> node_value (h ! c) = v \<and> parents (h ! c) = ps
      \<and> renders_list h lo c (children (h ! c)) ts)"
| "renders_list h lo p [] [] = True"
| "renders_list h lo p (x # xs) (t # ts) = (renders h lo [p] x t \<and> renders_list h lo p xs ts)"
| "renders_list h lo p [] (t # ts) = False"
| "renders_list h lo p (x # xs) [] = False"

text \<open>
  The containment the specification describes for a datacenter: under the datacenter one
  node per resolved entry of its host folder; under a bare host one node per virtual machine
  on it; under a compute resource one node per member host, and under each of these one node
  per virtual machine on it.
\<close>

definition vm_tree :: "virtual_machine \<Rightarrow> managed_object rose" where
  "vm_tree v = Rose (MVm v) []"

definition host_tree :: "host_system \<Rightarrow> managed_object rose" where
  "host_tree h = Rose (MHost h) (map vm_tree (vm h))"

definition h_cr_tree :: "host_or_cr \<Rightarrow> managed_object rose" where
  "h_cr_tree x = (case x of AHost h \<Rightarrow> host_tree h
                  | ACompute cr \<Rightarrow> Rose (MCompute cr) (map host_tree (host cr)))"

definition dc_tree :: "datacenter \<Rightarrow> managed_object rose" where
  "dc_tree dc = Rose (MDatacenter dc) (map h_cr_tree (get_child_objects (hostFolder dc) []))"

text \<open>
  The datacenter of the specification's scenario: one cluster with two hosts of one virtual
  machine each, and one bare host without virtual machines. \<open>scenario_wired\<close> is the state
  after the loops of \<^verbatim>\<open>_build_dc_tree\<close>, \<open>scenario_traversed\<close> the store after the traversal
  of the constructor of \<^verbatim>\<open>DCTree\<close>, and \<open>scenario_tree\<close> the tree it returns.
\<close>

definition host1 :: host_system where
  "host1 = HostSystem ''host1'' [VirtualMachine ''vm1'']"

definition host2 :: host_system where
  "host2 = HostSystem ''host2'' [VirtualMachine ''vm2'']"

definition bare_host :: host_system where
  "bare_host = HostSystem ''bare'' []"

definition cluster :: compute_resource where
  "cluster = ComputeResource ''cluster'' [host1, host2]"

definition scenario_dc :: datacenter where
  "scenario_dc = Datacenter ''dc'' (Folder [Object (ACompute cluster), Object (AHost bare_host)])"

definition scenario_wired :: "managed_object world" where
  "scenario_wired =
     \<lparr> heap = [fresh_node [] (MDatacenter scenario_dc) [1, 6] 1,
               fresh_node [0] (MCompute cluster) [2, 4] 2,
               fresh_node [1] (MHost host1) [3] 3,
               fresh_node [2] (MVm (VirtualMachine ''vm1'')) [] 4,
               fresh_node [1] (MHost host2) [5] 5,
               fresh_node [4] (MVm (VirtualMachine ''vm2'')) [] 6,
               fresh_node [0] (MHost bare_host) [] 7],
       global_id = 8 \<rparr>"

definition marked :: "ref option \<Rightarrow> int \<Rightarrow> 'v node \<Rightarrow> 'v node" where
  "marked sp d n = n\<lparr> visited := True, span_parent := sp, distance := d \<rparr>"

definition scenario_traversed :: "managed_object store" where
  "scenario_traversed =
     [marked None 0 (fresh_node [] (MDatacenter scenario_dc) [1, 6] 1),
      marked (Some 0) 1 (fresh_node [0] (MCompute cluster) [2, 4] 2),
      marked (Some 1) 2 (fresh_node [1] (MHost host1) [3] 3),
      marked (Some 2) 3 (fresh_node [2] (MVm (VirtualMachine ''vm1'')) [] 4),
      marked (Some 1) 2 (fresh_node [1] (MHost host2) [5] 5),
      marked (Some 4) 3 (fresh_node [4] (MVm (VirtualMachine ''vm2'')) [] 6),
      marked (Some 0) 1 (fresh_node [0] (MHost bare_host) [] 7)]"

definition scenario_tree :: DCTree where
  "scenario_tree = \<lparr> root = 0, nodes = [0, 1, 6, 2, 4, 3, 5], leaf = [6, 3, 5] \<rparr>"

text \<open>
  Two nodes with the same parents, value and children; and what one step of the builder does
  to the state, seen from the node \<open>p\<close> it works under: the store grows, \<open>p\<close> gets the first
  new node as one more child, that node renders the tree \<open>T\<close>, and no other old node changes.
\<close>

definition same_shape :: "'v node \<Rightarrow> 'v node \<Rightarrow> bool" where
  "same_shape n m \<longleftrightarrow> parents n = parents m \<and> node_value n = node_value m \<and> children n = children m"

definition attaches :: "ref \<Rightarrow> 'v rose \<Rightarrow> 'v world \<Rightarrow> 'v world \<Rightarrow> bool" where
  "attaches p T w w' \<longleftrightarrow>
     length (heap w) < length (heap w')
     \<and> (\<forall>i < length (heap w). i \<noteq> p \<longrightarrow> heap w' ! i = heap w ! i)
     \<and> heap w' ! p = (heap w ! p)\<lparr> children := children (heap w ! p) @ [length (heap w)] \<rparr>
     \<and> renders (heap w') (length (heap w)) [p] (length (heap w)) T"

section \<open>The rows of a provider result\<close>

text \<open>
  The row the table is to hold for the series \<open>v\<close> and the sample \<open>i\<close>, and the rows for
  a whole provider result \<open>r\<close>: one per series and sample, with the name column \<open>nm\<close>.
\<close>

definition mk_row :: "(int \<rightharpoonup> string) \<Rightarrow> sample_info list \<Rightarrow> metric_series \<Rightarrow> string option \<Rightarrow> nat \<Rightarrow> row" where
  "mk_row unit_label sample_info v nm i =
     \<lparr> row_key = counterId (series_id v), row_instance = instance_sel (series_id v),
       row_timestamp = timestamp (sample_info ! i), row_value = series_value v ! i,
       row_unit = the (unit_label (counterId (series_id v))), row_name = nm \<rparr>"

definition expected_rows :: "(int \<rightharpoonup> string) \<Rightarrow> entity_metric \<Rightarrow> string option \<Rightarrow> row list" where
  "expected_rows unit_label r nm =
     concat (map (\<lambda>v. map (mk_row unit_label (sampleInfo r) v nm) [0 ..< length (sampleInfo r)])
                 (metric_value r))"

text \<open>
  A provider result for two counters, two instances each and two samples, and the units of
  the two counters.
\<close>

definition sample_result :: entity_metric where
  "sample_result =
     \<lparr> sampleInfo = [\<lparr> timestamp = 100 \<rparr>, \<lparr> timestamp = 120 \<rparr>],
       metric_value =
         [\<lparr> series_id = \<lparr> counterId = 6, instance_sel = '''' \<rparr>, series_value = [10, 11] \<rparr>,
          \<lparr> series_id = \<lparr> counterId = 6, instance_sel = ''0'' \<rparr>, series_value = [12, 13] \<rparr>,
          \<lparr> series_id = \<lparr> counterId = 2, instance_sel = '''' \<rparr>, series_value = [20, 21] \<rparr>,
          \<lparr> series_id = \<lparr> counterId = 2, instance_sel = ''0'' \<rparr>, series_value = [22, 23] \<rparr>] \<rparr>"

definition sample_units :: "int \<rightharpoonup> string" where
  "sample_units = [6 \<mapsto> ''MHz'', 2 \<mapsto> ''%'']"

section \<open>The query builder: properties\<close>



lemma missing_bounds_msg_distinct: "type_mismatch_msg field \<noteq> missing_bounds_msg"
  by (simp add: type_mismatch_msg_def missing_bounds_msg_def)




text \<open>
  Claim C5 as written fails: \<^verbatim>\<open>max_samples=0\<close> is supplied, and the call still raises the
  \<^verbatim>\<open>TypeError\<close> for missing time bounds.
\<close>

theorem missing_bounds_counterexample:
  "PyInt 0 \<noteq> PyNone \<and>
   build_query scenario_monitor 0 (Some [6]) (Some [''*'']) PyNone PyNone PyNone (PyInt 0) ''normal''
     = Inl (TypeError missing_bounds_msg)"
  by (simp add: build_query_def)

text \<open>
  Claim C5, amended. \<^verbatim>\<open>_build_query\<close> raises the \<^verbatim>\<open>TypeError\<close> for missing time bounds
  exactly when both \<^verbatim>\<open>max_samples\<close> and \<^verbatim>\<open>start\<close> are false in Python's sense (\<^verbatim>\<open>None\<close>, or
  a supplied \<^verbatim>\<open>0\<close> or empty value); when either of them is true the error is not raised,
  whatever \<^verbatim>\<open>end\<close> is.
\<close>

theorem missing_bounds_iff_falsy:
  "build_query self ent counter_ids instances interval start end' max_samples fmt
     = Inl (TypeError missing_bounds_msg)
   \<longleftrightarrow> \<not> truthy max_samples \<and> \<not> truthy start"
  unfolding build_query_def Let_def
  by (auto simp: missing_bounds_msg_distinct split: sum.splits)

text \<open>A start time alone, a sample limit alone, and neither.\<close>

theorem missing_bounds_iff_falsy_witness:
  "build_query scenario_monitor 0 None None PyNone (PyDatetime 1700000000) PyNone PyNone ''normal''
     \<noteq> Inl (TypeError missing_bounds_msg)
   \<and> build_query scenario_monitor 0 None None PyNone PyNone PyNone (PyInt 1) ''normal''
     \<noteq> Inl (TypeError missing_bounds_msg)
   \<and> build_query scenario_monitor 0 None None PyNone PyNone PyNone PyNone ''normal''
     = Inl (TypeError missing_bounds_msg)"
  using missing_bounds_iff_falsy [where self=scenario_monitor and ent="0::nat" and counter_ids="None" and instances="None" and interval="PyNone" and start="PyDatetime 1700000000" and end'="PyNone" and max_samples="PyNone" and fmt="''normal''"]
        missing_bounds_iff_falsy [where self=scenario_monitor and ent="0::nat" and counter_ids="None" and instances="None" and interval="PyNone" and start="PyNone" and end'="PyNone" and max_samples="PyInt 1" and fmt="''normal''"]
        missing_bounds_iff_falsy [where self=scenario_monitor and ent="0::nat" and counter_ids="None" and instances="None" and interval="PyNone" and start="PyNone" and end'="PyNone" and max_samples="PyNone" and fmt="''normal''"]
  by simp

text \<open>
  Claim C9. With \<^verbatim>\<open>max_samples\<close> equal to the integer 0 and \<^verbatim>\<open>start\<close> absent, every call
  raises the \<^verbatim>\<open>TypeError\<close> for missing time bounds, whatever the other arguments and the
  state of the monitor are; the same holds for every \<^verbatim>\<open>start\<close> that is false in Python's
  sense.
\<close>

theorem zero_max_samples_is_absent:
  "build_query self ent counter_ids instances interval PyNone end' (PyInt 0) fmt
     = Inl (TypeError missing_bounds_msg)
   \<and> (\<not> truthy start \<longrightarrow>
        build_query self ent counter_ids instances interval start end' (PyInt 0) fmt
          = Inl (TypeError missing_bounds_msg))"
  by (simp add: build_query_def)

text \<open>An empty string for \<^verbatim>\<open>start\<close> is such a value.\<close>

theorem zero_max_samples_is_absent_witness:
  "\<not> truthy (PyStr '''') \<and>
   build_query scenario_monitor 0 (Some [6]) None (PyInt 20) (PyStr '''') PyNone (PyInt 0) ''normal''
     = Inl (TypeError missing_bounds_msg)"
  using zero_max_samples_is_absent [where self=scenario_monitor and ent="0::nat" and counter_ids="Some [6]" and instances=None and interval="PyInt 20" and start="PyStr ''''" and end'=PyNone and fmt="''normal''"]
  by simp

text \<open>
  Claim C10. For a fixed monitor and fixed other arguments, the result of \<^verbatim>\<open>_build_query\<close>
  for an entity \<open>e2\<close> is the result for an entity \<open>e1\<close> with the field \<^verbatim>\<open>entity\<close> of the
  query replaced: the same exception, or the same warnings and a query that differs in the
  entity only. The flags it consults are those \<^verbatim>\<open>query_provider\<close> stored, which come from
  the first entity of \<^verbatim>\<open>vm_view\<close> alone.
\<close>

theorem build_query_entity_independent:
  "build_query self e2 counter_ids instances interval start end' max_samples fmt
     = map_sum id (\<lambda>(q, ws). (q\<lparr> entity := e2 \<rparr>, ws))
         (build_query self e1 counter_ids instances interval start end' max_samples fmt)
   \<and> query_provider QueryPerfProviderSummary (self\<lparr> vm_view := vm0 # vms \<rparr>)
     = Inr (self\<lparr> vm_view := vm0 # vms,
                  current_supported := Some (currentSupported (QueryPerfProviderSummary vm0)),
                  summary_supported := Some (summarySupported (QueryPerfProviderSummary vm0)),
                  refresh_rate := refreshRate (QueryPerfProviderSummary vm0) \<rparr>)"
  unfolding build_query_def Let_def query_provider_def
  by (simp split: sum.splits)




section \<open>The traversal: properties\<close>

lemma visit_children_length:
  "visit_children u cs h q = (h', q') \<Longrightarrow> length h' = length h"
  by (induction cs arbitrary: h q) (auto split: if_splits)

lemma visit_children_children:
  "visit_children u cs h q = (h', q') \<Longrightarrow> map children h' = map children h"
proof (induction cs arbitrary: h q)
  case Nil
  then show ?case by simp
next
  case (Cons c cs)
  show ?case
  proof (cases "c < length h \<and> \<not> visited (h ! c)")
    case True
    let ?x = "(h ! c)\<lparr> visited := True, span_parent := Some u, distance := distance (h ! u) + 1 \<rparr>"
    from True Cons.prems have "visit_children u cs (h[c := ?x]) (q @ [c]) = (h', q')" by simp
    from Cons.IH [OF this] have "map children h' = map children (h[c := ?x])" .
    also have "\<dots> = map children h"
      using True by (simp add: map_update list_update_same_conv)
    finally show ?thesis .
  next
    case False
    with Cons.prems have "visit_children u cs h q = (h', q')" by auto
    from Cons.IH [OF this] show ?thesis .
  qed
qed

lemma visit_children_visited:
  "visit_children u cs h q = (h', q') \<Longrightarrow> i < length h \<Longrightarrow>
     visited (h' ! i) \<longleftrightarrow> visited (h ! i) \<or> i \<in> set cs"
proof (induction cs arbitrary: h q)
  case Nil
  then show ?case by simp
next
  case (Cons c cs)
  show ?case
  proof (cases "c < length h \<and> \<not> visited (h ! c)")
    case True
    let ?x = "(h ! c)\<lparr> visited := True, span_parent := Some u, distance := distance (h ! u) + 1 \<rparr>"
    from True Cons.prems have "visit_children u cs (h[c := ?x]) (q @ [c]) = (h', q')" by simp
    from Cons.IH [OF this] Cons.prems(2)
    have "visited (h' ! i) \<longleftrightarrow> visited (h[c := ?x] ! i) \<or> i \<in> set cs" by simp
    then show ?thesis using True Cons.prems(2) by (auto simp: nth_list_update)
  next
    case False
    with Cons.prems have "visit_children u cs h q = (h', q')" by auto
    from Cons.IH [OF this] Cons.prems(2) False show ?thesis by auto
  qed
qed

lemma visit_children_keeps_visited:
  "visit_children u cs h q = (h', q') \<Longrightarrow> i < length h \<Longrightarrow> visited (h ! i) \<Longrightarrow> h' ! i = h ! i"
proof (induction cs arbitrary: h q)
  case Nil
  then show ?case by simp
next
  case (Cons c cs)
  show ?case
  proof (cases "c < length h \<and> \<not> visited (h ! c)")
    case True
    let ?x = "(h ! c)\<lparr> visited := True, span_parent := Some u, distance := distance (h ! u) + 1 \<rparr>"
    from True Cons.prems(3) have ne: "i \<noteq> c" by auto
    from True Cons.prems have "visit_children u cs (h[c := ?x]) (q @ [c]) = (h', q')" by simp
    from Cons.IH [OF this] Cons.prems(2,3) ne show ?thesis by simp
  next
    case False
    with Cons.prems have "visit_children u cs h q = (h', q')" by auto
    from Cons.IH [OF this] Cons.prems(2,3) show ?thesis by simp
  qed
qed

lemma visit_children_marks:
  "visit_children u cs h q = (h', q') \<Longrightarrow> u < length h \<Longrightarrow> visited (h ! u) \<Longrightarrow>
   i < length h \<Longrightarrow> \<not> visited (h ! i) \<Longrightarrow> i \<in> set cs \<Longrightarrow>
     span_parent (h' ! i) = Some u \<and> distance (h' ! i) = distance (h ! u) + 1"
proof (induction cs arbitrary: h q)
  case Nil
  then show ?case by simp
next
  case (Cons c cs)
  show ?case
  proof (cases "c < length h \<and> \<not> visited (h ! c)")
    case True
    let ?x = "(h ! c)\<lparr> visited := True, span_parent := Some u, distance := distance (h ! u) + 1 \<rparr>"
    from True Cons.prems(3) have uc: "u \<noteq> c" by auto
    from True Cons.prems have rec: "visit_children u cs (h[c := ?x]) (q @ [c]) = (h', q')" by simp
    show ?thesis
    proof (cases "i = c")
      case True
      have "h' ! c = h[c := ?x] ! c"
        using visit_children_keeps_visited [OF rec, of c] \<open>c < length h \<and> \<not> visited (h ! c)\<close> by simp
      then show ?thesis using True \<open>c < length h \<and> \<not> visited (h ! c)\<close> by simp
    next
      case False
      with Cons.prems have "i \<in> set cs" by simp
      with Cons.IH [OF rec] Cons.prems(2-5) False uc show ?thesis by simp
    qed
  next
    case False
    with Cons.prems have rec: "visit_children u cs h q = (h', q')" by auto
    from False Cons.prems have "i \<in> set cs" by auto
    with Cons.IH [OF rec] Cons.prems(2-5) show ?thesis by simp
  qed
qed

lemma visit_children_queue:
  "visit_children u cs h q = (h', q') \<Longrightarrow>
     \<exists>new. q' = q @ new \<and> distinct new
            \<and> set new = {c \<in> set cs. c < length h \<and> \<not> visited (h ! c)}"
proof (induction cs arbitrary: h q)
  case Nil
  then show ?case by simp
next
  case (Cons c cs)
  show ?case
  proof (cases "c < length h \<and> \<not> visited (h ! c)")
    case True
    let ?x = "(h ! c)\<lparr> visited := True, span_parent := Some u, distance := distance (h ! u) + 1 \<rparr>"
    let ?h = "h[c := ?x]"
    from True Cons.prems have rec: "visit_children u cs ?h (q @ [c]) = (h', q')" by simp
    from Cons.IH [OF rec] obtain new where
      new: "q' = (q @ [c]) @ new" "distinct new"
           "set new = {d \<in> set cs. d < length ?h \<and> \<not> visited (?h ! d)}" by blast
    have "c \<notin> set new" using new(3) True by simp
    moreover have "set (c # new) = {d \<in> set (c # cs). d < length h \<and> \<not> visited (h ! d)}"
      using new(3) True by (auto simp: nth_list_update split: if_splits)
    ultimately have "q' = q @ (c # new) \<and> distinct (c # new)
        \<and> set (c # new) = {d \<in> set (c # cs). d < length h \<and> \<not> visited (h ! d)}"
      using new(1,2) by simp
    then show ?thesis by blast
  next
    case False
    with Cons.prems have rec: "visit_children u cs h q = (h', q')" by auto
    from Cons.IH [OF rec] False show ?thesis by auto
  qed
qed

lemma find_append:
  "find P (xs @ ys) = (case find P xs of None \<Rightarrow> find P ys | Some x \<Rightarrow> Some x)"
  by (induction xs) auto

lemma find_Some_mem: "find P xs = Some x \<Longrightarrow> x \<in> set xs"
  by (induction xs) (auto split: if_splits)

lemma bfs_inv_step:
  assumes inv: "bfs_inv r h0 h ds (u # q)"
    and vc: "visit_children u (children (h ! u)) h q = (h1, q1)"
  shows "bfs_inv r h0 h1 (ds @ [u]) q1"
proof -
  from inv have len: "length h = length h0" and ch: "map children h = map children h0"
    and dist: "distinct (ds @ u # q)" and rin: "r \<in> set (ds @ u # q)"
    and rng: "\<forall>v \<in> set (ds @ u # q). v < length h"
    and vis: "\<forall>i < length h. visited (h ! i) \<longleftrightarrow> i \<in> set (ds @ u # q)"
    and clo: "\<forall>p \<in> set ds. \<forall>c \<in> set (children (h0 ! p)). c < length h \<longrightarrow> c \<in> set (ds @ u # q)"
    and rch: "\<forall>v \<in> set (ds @ u # q). reach h0 r v"
    and spn: "\<forall>v \<in> set (ds @ u # q). v \<noteq> r \<longrightarrow>
        (\<exists>p. find (\<lambda>p. v \<in> set (children (h0 ! p))) ds = Some p \<and>
             span_parent (h ! v) = Some p \<and> distance (h ! v) = distance (h ! p) + 1)"
    unfolding bfs_inv_def by blast+
  have u_rng: "u < length h" using rng by simp
  have u_vis: "visited (h ! u)" using vis u_rng by simp
  have ch_nth: "children (h ! i) = children (h0 ! i)" if "i < length h" for i
    using that ch len by (metis nth_map)
  let ?cs = "children (h0 ! u)"
  have cs: "children (h ! u) = ?cs" using ch_nth u_rng by simp
  from visit_children_queue [OF vc] obtain new where
    q1: "q1 = q @ new" and dnew: "distinct new"
    and snew: "set new = {c \<in> set ?cs. c < length h \<and> \<not> visited (h ! c)}"
    unfolding cs by blast
  have new_fresh: "c \<notin> set (ds @ u # q)" "c < length h" "c \<in> set ?cs" if "c \<in> set new" for c
    using that snew vis by auto
  have len1: "length h1 = length h" by (rule visit_children_length [OF vc])
  have ch1: "map children h1 = map children h" by (rule visit_children_children [OF vc])
  have vis1: "visited (h1 ! i) \<longleftrightarrow> i \<in> set ((ds @ [u]) @ q1)" if "i < length h" for i
  proof -
    have "visited (h1 ! i) \<longleftrightarrow> visited (h ! i) \<or> i \<in> set ?cs"
      using visit_children_visited [OF vc that] cs by simp
    then show ?thesis using vis that snew q1 by auto
  qed
  have keep: "h1 ! v = h ! v" if "v \<in> set (ds @ u # q)" for v
    using visit_children_keeps_visited [OF vc, of v] that rng vis by blast
  have clo1: "c \<in> set ((ds @ [u]) @ q1)"
    if "p \<in> set (ds @ [u])" "c \<in> set (children (h0 ! p))" "c < length h" for p c
  proof (cases "p = u")
    case True
    with that have "c \<in> set ?cs" by simp
    then show ?thesis using snew q1 vis that(3) by auto
  next
    case False
    with that clo have "c \<in> set (ds @ u # q)" by auto
    then show ?thesis using q1 by auto
  qed
  have rch1: "reach h0 r v" if "v \<in> set ((ds @ [u]) @ q1)" for v
  proof (cases "v \<in> set new")
    case True
    have "reach h0 r u" using rch by simp
    then show ?thesis
      using new_fresh [OF True] u_rng len by (auto intro: reach_child)
  next
    case False
    with that q1 rch show ?thesis by auto
  qed
  have spn1: "\<exists>p. find (\<lambda>p. v \<in> set (children (h0 ! p))) (ds @ [u]) = Some p \<and>
             span_parent (h1 ! v) = Some p \<and> distance (h1 ! v) = distance (h1 ! p) + 1"
    if "v \<in> set ((ds @ [u]) @ q1)" "v \<noteq> r" for v
  proof (cases "v \<in> set new")
    case True
    note fr = new_fresh [OF True]
    have "find (\<lambda>p. v \<in> set (children (h0 ! p))) ds = None"
      using clo fr(1,2) by (auto simp: find_None_iff)
    then have f: "find (\<lambda>p. v \<in> set (children (h0 ! p))) (ds @ [u]) = Some u"
      using fr(3) by (simp add: find_append)
    have nv: "\<not> visited (h ! v)" using vis fr(1,2) by blast
    have "span_parent (h1 ! v) = Some u \<and> distance (h1 ! v) = distance (h ! u) + 1"
      using visit_children_marks [OF vc u_rng u_vis fr(2) nv] fr(3) cs by simp
    moreover have "h1 ! u = h ! u" using keep by simp
    ultimately show ?thesis using f by simp
  next
    case False
    with that q1 have old: "v \<in> set (ds @ u # q)" by auto
    with spn that(2) obtain p where
      p: "find (\<lambda>p. v \<in> set (children (h0 ! p))) ds = Some p"
         "span_parent (h ! v) = Some p" "distance (h ! v) = distance (h ! p) + 1" by blast
    have "p \<in> set ds" using find_Some_mem [OF p(1)] .
    then have "h1 ! p = h ! p" using keep by simp
    moreover have "h1 ! v = h ! v" using keep old by simp
    moreover have "find (\<lambda>p. v \<in> set (children (h0 ! p))) (ds @ [u]) = Some p"
      using p(1) by (simp add: find_append)
    ultimately show ?thesis using p by simp
  qed
  have dist1: "distinct ((ds @ [u]) @ q1)"
    using dist dnew q1 new_fresh(1) by auto
  have rng1: "\<forall>v \<in> set ((ds @ [u]) @ q1). v < length h1"
    using rng q1 new_fresh(2) len1 by auto
  have rin1: "r \<in> set ((ds @ [u]) @ q1)" using rin q1 by auto
  show ?thesis
    unfolding bfs_inv_def
    using len len1 ch ch1 dist1 rin1 rng1 vis1 clo1 rch1 spn1 by simp
qed

lemma bfs_loop_inv:
  "bfs_loop h q = (h', ys) \<Longrightarrow> bfs_inv r h0 h ds q \<Longrightarrow> bfs_inv r h0 h' (ds @ ys) []"
proof (induction h q arbitrary: ds h' ys rule: bfs_loop.induct)
  case (1 h)
  then show ?case by simp
next
  case (2 h u q)
  obtain h1 q1 where vc: "visit_children u (children (h ! u)) h q = (h1, q1)"
    by (cases "visit_children u (children (h ! u)) h q")
  obtain h2 ys' where rec: "bfs_loop h1 q1 = (h2, ys')"
    by (cases "bfs_loop h1 q1")
  from "2.prems"(1) vc rec have res: "h' = h2" "ys = u # ys'" by simp_all
  have "bfs_inv r h0 h1 (ds @ [u]) q1" by (rule bfs_inv_step [OF "2.prems"(2) vc])
  from "2.IH" [OF vc [symmetric] rec this]
  show ?case using res by simp
qed

text \<open>
  Claim C2. \<open>bfs\<close> is the worklist algorithm of \<^verbatim>\<open>DCTree._bfs\<close>: the start node is marked
  and enqueued, and each pass dequeues and yields a node and marks, labels and enqueues its
  unvisited children. Started at a node \<open>r\<close> of a store in which no node is marked, it
  yields every node reachable from \<open>r\<close> exactly once, \<open>r\<close> first, and leaves each of them
  marked. Every yielded node \<open>c\<close> other than \<open>r\<close> has as spanning-tree parent the first
  yielded node that has \<open>c\<close> among its children, also when several yielded nodes do, and as
  distance that node's distance plus one. The store may be any finite graph, a directed
  acyclic graph with converging paths included.
\<close>

theorem bfs_yields_reachable_once:
  assumes run: "bfs h r = (h', ys)" and r: "r < length h" and fresh: "\<forall>n \<in> set h. \<not> visited n"
  shows "distinct ys \<and> set ys = {v. reach h r v} \<and> hd ys = r
       \<and> (\<forall>c \<in> set ys. visited (h' ! c))
       \<and> (\<forall>c \<in> set ys. c \<noteq> r \<longrightarrow>
            (\<exists>u. find (\<lambda>p. c \<in> set (children (h ! p))) ys = Some u
                 \<and> span_parent (h' ! c) = Some u
                 \<and> distance (h' ! c) = distance (h' ! u) + 1))"
proof -
  let ?h1 = "h[r := (h ! r)\<lparr> visited := True \<rparr>]"
  from run have loop: "bfs_loop ?h1 [r] = (h', ys)" by (simp add: bfs_def)
  have "map children ?h1 = map children h"
    using r by (simp add: map_update list_update_same_conv)
  moreover have "\<forall>i < length ?h1. visited (?h1 ! i) \<longleftrightarrow> i \<in> set ([] @ [r])"
    using fresh r by (auto simp: nth_list_update)
  ultimately have "bfs_inv r h ?h1 [] [r]"
    unfolding bfs_inv_def using r by (auto intro: reach_start)
  from bfs_loop_inv [OF loop this] have fin: "bfs_inv r h h' ys []" by simp
  from fin [unfolded bfs_inv_def append_Nil2] have len: "length h' = length h" and dist: "distinct ys" and rin: "r \<in> set ys"
    and rng: "\<forall>v \<in> set ys. v < length h'"
    and vis: "\<forall>i < length h'. visited (h' ! i) \<longleftrightarrow> i \<in> set ys"
    and clo: "\<forall>p \<in> set ys. \<forall>c \<in> set (children (h ! p)). c < length h' \<longrightarrow> c \<in> set ys"
    and rch: "\<forall>v \<in> set ys. reach h r v"
    and spn: "\<forall>v \<in> set ys. v \<noteq> r \<longrightarrow>
        (\<exists>p. find (\<lambda>p. v \<in> set (children (h ! p))) ys = Some p \<and>
             span_parent (h' ! v) = Some p \<and> distance (h' ! v) = distance (h' ! p) + 1)"
    by blast+
  have "v \<in> set ys" if "reach h r v" for v
    using that
  proof (induction rule: reach.induct)
    case reach_start
    show ?case by (rule rin)
  next
    case (reach_child u c)
    then show ?case using clo len by auto
  qed
  then have "set ys = {v. reach h r v}" using rch by auto
  moreover have "hd ys = r"
    using loop by (auto split: prod.splits)
  moreover have "\<forall>c \<in> set ys. visited (h' ! c)" using vis rng by auto
  ultimately show ?thesis using dist spn by blast
qed

text \<open>
  In \<open>diamond\<close> the nodes 1 and 2 both have the child 3: it is yielded once, and its
  spanning-tree parent is 1, the parent dequeued first.
\<close>

theorem bfs_yields_reachable_once_witness:
  "snd (bfs diamond 0) = [0, 1, 2, 3]
   \<and> set [0, 1, 2, 3] = {v. reach diamond 0 v}
   \<and> find (\<lambda>p. 3 \<in> set (children (diamond ! p))) [0, 1, 2, 3] = Some 1
   \<and> span_parent (fst (bfs diamond 0) ! 3) = Some 1
   \<and> distance (fst (bfs diamond 0) ! 3) = 2"
proof -
  have ys: "snd (bfs diamond 0) = [0, 1, 2, 3]"
    by (simp add: bfs_def diamond_def fresh_node_def)
  then have run: "bfs diamond 0 = (fst (bfs diamond 0), [0, 1, 2, 3])"
    by (metis prod.collapse)
  have r: "0 < length diamond" by (simp add: diamond_def)
  have fresh: "\<forall>n \<in> set diamond. \<not> visited n" by (simp add: diamond_def fresh_node_def)
  have f: "find (\<lambda>p. 3 \<in> set (children (diamond ! p))) [0, 1, 2, 3] = Some 1"
    by (simp add: diamond_def fresh_node_def)
  have d1: "distance (fst (bfs diamond 0) ! 1) = 1"
    by (simp add: bfs_def diamond_def fresh_node_def)
  from bfs_yields_reachable_once [OF run r fresh] f d1 ys
  show ?thesis by auto
qed

text \<open>
  Claim C3 does not hold of the code: \<^verbatim>\<open>update_struct\<close> appends to \<^verbatim>\<open>self.nodes\<close> and
  \<^verbatim>\<open>self.leaf\<close> without emptying them first. On a datacenter with one host, the constructor
  derives the nodes \<open>[0, 1]\<close> and the leaves \<open>[1]\<close>; after one more call on the unmodified
  tree the lists are \<open>[0, 1, 0, 1]\<close> and \<open>[1, 1]\<close>.
\<close>

theorem refresh_twice_duplicates:
  "DCTree_init small_tree 0 = Inr first_refresh
   \<and> nodes (snd first_refresh) = [0, 1] \<and> leaf (snd first_refresh) = [1]
   \<and> nodes (snd second_refresh) = [0, 1, 0, 1] \<and> leaf (snd second_refresh) = [1, 1]"
  by (simp add: second_refresh_def first_refresh_def DCTree_init_def update_struct_def bfs_def
      reset_visited_def collect_def is_root_def is_leaf_def small_tree_def fresh_node_def)

text \<open>
  Claim C4 as written fails: after \<^verbatim>\<open>update_struct\<close> has returned, the flags of the nodes in
  the node list are true.
\<close>

theorem refresh_visited_counterexample:
  "nodes (snd first_refresh) = [0, 1]
   \<and> visited (fst first_refresh ! 0) \<and> visited (fst first_refresh ! 1)"
  by (simp add: first_refresh_def update_struct_def bfs_def
      reset_visited_def collect_def is_leaf_def small_tree_def fresh_node_def)

lemma bfs_loop_length: "bfs_loop h q = (h', ys) \<Longrightarrow> length h' = length h"
proof (induction h q arbitrary: h' ys rule: bfs_loop.induct)
  case (1 h)
  then show ?case by simp
next
  case (2 h u q)
  obtain h1 q1 where vc: "visit_children u (children (h ! u)) h q = (h1, q1)"
    by (cases "visit_children u (children (h ! u)) h q")
  obtain h2 ys' where rec: "bfs_loop h1 q1 = (h2, ys')"
    by (cases "bfs_loop h1 q1")
  from "2.prems" vc rec have "h' = h2" by simp
  with "2.IH" [OF vc [symmetric] rec] visit_children_length [OF vc] show ?case by simp
qed

lemma bfs_loop_keeps_visited:
  "bfs_loop h q = (h', ys) \<Longrightarrow> i < length h \<Longrightarrow> visited (h ! i) \<Longrightarrow> h' ! i = h ! i"
proof (induction h q arbitrary: h' ys rule: bfs_loop.induct)
  case (1 h)
  then show ?case by simp
next
  case (2 h u q)
  obtain h1 q1 where vc: "visit_children u (children (h ! u)) h q = (h1, q1)"
    by (cases "visit_children u (children (h ! u)) h q")
  obtain h2 ys' where rec: "bfs_loop h1 q1 = (h2, ys')"
    by (cases "bfs_loop h1 q1")
  from "2.prems"(1) vc rec have res: "h' = h2" by simp
  have same: "h1 ! i = h ! i" by (rule visit_children_keeps_visited [OF vc "2.prems"(2,3)])
  have "i < length h1" using visit_children_length [OF vc] "2.prems"(2) by simp
  from "2.IH" [OF vc [symmetric] rec this] same "2.prems"(3) res show ?case by simp
qed

lemma bfs_loop_marks:
  "bfs_loop h q = (h', ys) \<Longrightarrow> \<forall>v \<in> set q. v < length h \<and> visited (h ! v) \<Longrightarrow>
     \<forall>v \<in> set ys. v < length h' \<and> visited (h' ! v)"
proof (induction h q arbitrary: h' ys rule: bfs_loop.induct)
  case (1 h)
  then show ?case by simp
next
  case (2 h u q)
  obtain h1 q1 where vc: "visit_children u (children (h ! u)) h q = (h1, q1)"
    by (cases "visit_children u (children (h ! u)) h q")
  obtain h2 ys' where rec: "bfs_loop h1 q1 = (h2, ys')"
    by (cases "bfs_loop h1 q1")
  from "2.prems"(1) vc rec have res: "h' = h2" "ys = u # ys'" by simp_all
  have len1: "length h1 = length h" by (rule visit_children_length [OF vc])
  have len2: "length h2 = length h1" by (rule bfs_loop_length [OF rec])
  from visit_children_queue [OF vc] obtain new where
    new: "q1 = q @ new" "set new = {c \<in> set (children (h ! u)). c < length h \<and> \<not> visited (h ! c)}"
    by blast
  have "v < length h1 \<and> visited (h1 ! v)" if "v \<in> set q1" for v
  proof (cases "v \<in> set new")
    case True
    then have "v < length h" "v \<in> set (children (h ! u))" using new(2) by auto
    then show ?thesis using visit_children_visited [OF vc, of v] len1 by simp
  next
    case False
    with that new(1) have "v \<in> set q" by simp
    with "2.prems"(2) have "v < length h" "visited (h ! v)" by auto
    then show ?thesis using visit_children_visited [OF vc, of v] len1 by simp
  qed
  then have tail: "\<forall>v \<in> set ys'. v < length h2 \<and> visited (h2 ! v)"
    using "2.IH" [OF vc [symmetric] rec] by blast
  from "2.prems"(2) have u: "u < length h" "visited (h ! u)" by auto
  have "h1 ! u = h ! u" by (rule visit_children_keeps_visited [OF vc u])
  moreover have "h2 ! u = h1 ! u"
    using bfs_loop_keeps_visited [OF rec, of u] u len1 calculation by simp
  ultimately have "u < length h2 \<and> visited (h2 ! u)" using u len1 len2 by simp
  with tail res show ?case by simp
qed

lemma fold_collect_nodes: "nodes (fold (collect h) ys self) = nodes self @ ys"
  by (induction ys arbitrary: self) (simp_all add: collect_def Let_def)

lemma fold_collect_leaf:
  "leaf (fold (collect h) ys self) = leaf self @ filter (\<lambda>n. is_leaf (h ! n)) ys"
  by (induction ys arbitrary: self) (simp_all add: collect_def Let_def)

lemma fold_collect_root: "root (fold (collect h) ys self) = root self"
  by (induction ys arbitrary: self) (simp_all add: collect_def Let_def)

lemma reset_visited_length: "length (reset_visited ns h) = length h"
  unfolding reset_visited_def by (induction ns arbitrary: h) simp_all

lemma reset_visited_nth:
  "i < length h \<Longrightarrow>
     reset_visited ns h ! i = (if i \<in> set ns then (h ! i)\<lparr> visited := False \<rparr> else h ! i)"
  unfolding reset_visited_def
proof (induction ns arbitrary: h)
  case Nil
  then show ?case by simp
next
  case (Cons n ns)
  from Cons.prems have "i < length (h[n := (h ! n)\<lparr> visited := False \<rparr>])" by simp
  from Cons.IH [OF this] Cons.prems show ?case
    by (cases "i = n") (auto simp: nth_list_update)
qed

text \<open>
  Claim C4, amended. \<^verbatim>\<open>update_struct\<close> sets the visited flag of every node in the node list
  to false before it traverses, so its traversal starts with no known node marked; when
  \<^verbatim>\<open>update_struct\<close> returns, every node that traversal has reached has its flag true.
\<close>

theorem refresh_resets_before_traversal:
  assumes run: "update_struct h self root_opt = (h', self')"
    and r: "(case root_opt of None \<Rightarrow> root self | Some r \<Rightarrow> r) < length h"
  shows "(\<forall>n \<in> set (nodes self). n < length h \<longrightarrow> \<not> visited (reset_visited (nodes self) h ! n))
       \<and> (\<exists>ys. bfs (reset_visited (nodes self) h)
                    (case root_opt of None \<Rightarrow> root self | Some r \<Rightarrow> r) = (h', ys)
               \<and> ys \<noteq> []
               \<and> (\<forall>n \<in> set ys. n < length h' \<and> visited (h' ! n)))"
proof -
  let ?r = "case root_opt of None \<Rightarrow> root self | Some r \<Rightarrow> r"
  let ?h1 = "reset_visited (nodes self) h"
  obtain h2 ys where b: "bfs ?h1 ?r = (h2, ys)" by (cases "bfs ?h1 ?r")
  from run b have res: "h' = h2"
    by (auto simp: update_struct_def Let_def)
  have r1: "?r < length ?h1" using r by (simp add: reset_visited_length)
  let ?h1' = "?h1[?r := (?h1 ! ?r)\<lparr> visited := True \<rparr>]"
  from b have loop: "bfs_loop ?h1' [?r] = (h2, ys)" by (simp add: bfs_def)
  have "\<forall>v \<in> set [?r]. v < length ?h1' \<and> visited (?h1' ! v)" using r1 by simp
  from bfs_loop_marks [OF loop this] have marked: "\<forall>n \<in> set ys. n < length h2 \<and> visited (h2 ! n)" .
  have ne: "ys \<noteq> []" using loop by (auto split: prod.splits)
  have "\<forall>n \<in> set (nodes self). n < length h \<longrightarrow> \<not> visited (?h1 ! n)"
    by (simp add: reset_visited_nth)
  then show ?thesis using b res marked ne by blast
qed

text \<open>
  The second call on \<open>small_tree\<close>: the constructor has left both nodes marked, the reset
  clears them, and the call returns with both marked again.
\<close>

theorem refresh_resets_before_traversal_witness:
  "visited (fst first_refresh ! 0) \<and> visited (fst first_refresh ! 1)
   \<and> \<not> visited (reset_visited (nodes (snd first_refresh)) (fst first_refresh) ! 0)
   \<and> \<not> visited (reset_visited (nodes (snd first_refresh)) (fst first_refresh) ! 1)
   \<and> visited (fst second_refresh ! 0) \<and> visited (fst second_refresh ! 1)"
proof -
  have run: "update_struct (fst first_refresh) (snd first_refresh) None
               = (fst second_refresh, snd second_refresh)"
    by (simp add: second_refresh_def)
  have fr: "nodes (snd first_refresh) = [0, 1]" "root (snd first_refresh) = 0"
           "length (fst first_refresh) = 2"
           "visited (fst first_refresh ! 0)" "visited (fst first_refresh ! 1)"
    by (simp_all add: first_refresh_def update_struct_def bfs_def
      reset_visited_def collect_def is_leaf_def small_tree_def fresh_node_def)
  have r: "(case None of None \<Rightarrow> root (snd first_refresh) | Some r \<Rightarrow> r) < length (fst first_refresh)"
    using fr by simp
  have ys: "snd (bfs (reset_visited (nodes (snd first_refresh)) (fst first_refresh)) 0) = [0, 1]"
    by (simp add: first_refresh_def update_struct_def bfs_def
      reset_visited_def collect_def is_leaf_def small_tree_def fresh_node_def)
  from refresh_resets_before_traversal [OF run r] fr ys
  show ?thesis by auto
qed

section \<open>The inventory builder: properties\<close>

lemma renders_frame:
  "renders h lo ps c T \<Longrightarrow> length h \<le> length h' \<Longrightarrow> lo' \<le> lo \<Longrightarrow>
     (\<forall>i. lo \<le> i \<and> i < length h \<longrightarrow> same_shape (h' ! i) (h ! i)) \<Longrightarrow> renders h' lo' ps c T"
  "renders_list h lo p cs ts \<Longrightarrow> length h \<le> length h' \<Longrightarrow> lo' \<le> lo \<Longrightarrow>
     (\<forall>i. lo \<le> i \<and> i < length h \<longrightarrow> same_shape (h' ! i) (h ! i)) \<Longrightarrow> renders_list h' lo' p cs ts"
proof (induction h lo ps c T and h lo p cs ts rule: renders_renders_list.induct)
  case (1 h lo ps c v ts)
  from "1.prems"(1) have c: "lo \<le> c" "c < length h" "node_value (h ! c) = v" "parents (h ! c) = ps"
    and sub: "renders_list h lo c (children (h ! c)) ts" by simp_all
  from "1.prems"(4) c(1,2) have sh: "same_shape (h' ! c) (h ! c)" by blast
  from "1.IH" [OF sub "1.prems"(2,3,4)] have "renders_list h' lo' c (children (h ! c)) ts" .
  then show ?case using c sh "1.prems"(2,3) by (simp add: same_shape_def)
next
  case (3 h lo p x xs t ts)
  then show ?case by simp
qed simp_all

lemma visit_children_shape:
  "visit_children u cs h q = (h', q') \<Longrightarrow> i < length h \<Longrightarrow> same_shape (h' ! i) (h ! i)"
proof (induction cs arbitrary: h q)
  case Nil
  then show ?case by (simp add: same_shape_def)
next
  case (Cons c cs)
  show ?case
  proof (cases "c < length h \<and> \<not> visited (h ! c)")
    case True
    let ?x = "(h ! c)\<lparr> visited := True, span_parent := Some u, distance := distance (h ! u) + 1 \<rparr>"
    from True Cons.prems have "visit_children u cs (h[c := ?x]) (q @ [c]) = (h', q')" by simp
    from Cons.IH [OF this] Cons.prems(2) have "same_shape (h' ! i) (h[c := ?x] ! i)" by simp
    then show ?thesis using Cons.prems(2) by (cases "i = c") (simp_all add: same_shape_def)
  next
    case False
    with Cons.prems have "visit_children u cs h q = (h', q')" by auto
    from Cons.IH [OF this] Cons.prems(2) show ?thesis by simp
  qed
qed

lemma bfs_loop_shape:
  "bfs_loop h q = (h', ys) \<Longrightarrow> i < length h \<Longrightarrow> same_shape (h' ! i) (h ! i)"
proof (induction h q arbitrary: h' ys rule: bfs_loop.induct)
  case (1 h)
  then show ?case by (simp add: same_shape_def)
next
  case (2 h u q)
  obtain h1 q1 where vc: "visit_children u (children (h ! u)) h q = (h1, q1)"
    by (cases "visit_children u (children (h ! u)) h q")
  obtain h2 ys' where rec: "bfs_loop h1 q1 = (h2, ys')"
    by (cases "bfs_loop h1 q1")
  from "2.prems"(1) vc rec have res: "h' = h2" by simp
  have "i < length h1" using visit_children_length [OF vc] "2.prems"(2) by simp
  from "2.IH" [OF vc [symmetric] rec this] visit_children_shape [OF vc "2.prems"(2)] res
  show ?case by (simp add: same_shape_def)
qed

lemma bfs_shape:
  assumes "bfs h r = (h', ys)"
  shows "length h' = length h" and "i < length h \<Longrightarrow> same_shape (h' ! i) (h ! i)"
proof -
  let ?h1 = "h[r := (h ! r)\<lparr> visited := True \<rparr>]"
  from assms have loop: "bfs_loop ?h1 [r] = (h', ys)" by (simp add: bfs_def)
  from bfs_loop_length [OF loop] show "length h' = length h" by simp
  assume i: "i < length h"
  then have "same_shape (h' ! i) (?h1 ! i)" using bfs_loop_shape [OF loop, of i] by simp
  then show "same_shape (h' ! i) (h ! i)"
    using i by (cases "i = r") (simp_all add: same_shape_def)
qed

lemma fold_attaches:
  assumes step: "\<And>x w. p < length (heap w) \<Longrightarrow> attaches p (f x) w (op x w)"
  shows "p < length (heap w) \<Longrightarrow>
     \<exists>cs. length (heap w) \<le> length (heap (fold op xs w))
        \<and> (\<forall>i < length (heap w). i \<noteq> p \<longrightarrow> heap (fold op xs w) ! i = heap w ! i)
        \<and> heap (fold op xs w) ! p = (heap w ! p)\<lparr> children := children (heap w ! p) @ cs \<rparr>
        \<and> renders_list (heap (fold op xs w)) (length (heap w)) p cs (map f xs)"
proof (induction xs arbitrary: w)
  case Nil
  have "heap w ! p = (heap w ! p)\<lparr> children := children (heap w ! p) @ [] \<rparr>" by simp
  then show ?case by (intro exI [of _ "[]"]) simp
next
  case (Cons x xs)
  let ?a = "length (heap w)"
  let ?w1 = "op x w"
  let ?w2 = "fold op xs ?w1"
  from step [OF Cons.prems] have at: "attaches p (f x) w ?w1" .
  then have len1: "?a < length (heap ?w1)"
    and same1: "\<forall>i < ?a. i \<noteq> p \<longrightarrow> heap ?w1 ! i = heap w ! i"
    and p1: "heap ?w1 ! p = (heap w ! p)\<lparr> children := children (heap w ! p) @ [?a] \<rparr>"
    and r1: "renders (heap ?w1) ?a [p] ?a (f x)"
    unfolding attaches_def by blast+
  have p_lt: "p < length (heap ?w1)" using Cons.prems len1 by simp
  from Cons.IH [OF p_lt] obtain cs where
    len2: "length (heap ?w1) \<le> length (heap ?w2)"
    and same2: "\<forall>i < length (heap ?w1). i \<noteq> p \<longrightarrow> heap ?w2 ! i = heap ?w1 ! i"
    and p2: "heap ?w2 ! p = (heap ?w1 ! p)\<lparr> children := children (heap ?w1 ! p) @ cs \<rparr>"
    and r2: "renders_list (heap ?w2) (length (heap ?w1)) p cs (map f xs)"
    by blast
  have agree: "\<forall>i. ?a \<le> i \<and> i < length (heap ?w1) \<longrightarrow> same_shape (heap ?w2 ! i) (heap ?w1 ! i)"
    using same2 Cons.prems by (auto simp: same_shape_def)
  have rx: "renders (heap ?w2) ?a [p] ?a (f x)"
    by (rule renders_frame(1) [OF r1 len2 le_refl agree])
  have rxs: "renders_list (heap ?w2) ?a p cs (map f xs)"
    by (rule renders_frame(2) [OF r2 le_refl _ ]) (use len1 in \<open>simp_all add: same_shape_def\<close>)
  have "heap ?w2 ! p = (heap w ! p)\<lparr> children := children (heap w ! p) @ (?a # cs) \<rparr>"
    using p2 p1 by simp
  moreover have "\<forall>i < ?a. i \<noteq> p \<longrightarrow> heap ?w2 ! i = heap w ! i"
    using same1 same2 len1 by simp
  moreover have "?a \<le> length (heap ?w2)" using len1 len2 by simp
  moreover have "renders_list (heap ?w2) ?a p (?a # cs) (map f (x # xs))"
    using rx rxs by simp
  ultimately show ?case by (intro exI [of _ "?a # cs"]) simp
qed

lemma node_with_children_attaches:
  assumes step: "\<And>c x w'. c < length (heap w') \<Longrightarrow> attaches c (f x) w' (op c x w')"
    and p: "p < length (heap w)"
  shows "attaches p (Rose v (map f xs)) w
           (case Node [p] v [] w of (c, w1) \<Rightarrow> fold (op c) xs (append_child p c w1))"
proof -
  let ?a = "length (heap w)"
  let ?n = "\<lparr> parents = [p], node_value = v, children = [], node_id = global_id w,
              visited = False, span_parent = None, distance = 0 \<rparr>"
  let ?w1 = "append_child p ?a \<lparr> heap = heap w @ [?n], global_id = Suc (global_id w) \<rparr>"
  let ?w2 = "fold (op ?a) xs ?w1"
  have res: "(case Node [p] v [] w of (c, w1) \<Rightarrow> fold (op c) xs (append_child p c w1)) = ?w2"
    by (simp add: Node_def)
  have len1: "length (heap ?w1) = Suc ?a" by (simp add: append_child_def)
  have a1: "heap ?w1 ! ?a = ?n" using p by (simp add: append_child_def nth_append)
  have p1: "heap ?w1 ! p = (heap w ! p)\<lparr> children := children (heap w ! p) @ [?a] \<rparr>"
    using p by (simp add: append_child_def nth_append)
  have o1: "\<forall>i < ?a. i \<noteq> p \<longrightarrow> heap ?w1 ! i = heap w ! i"
    by (simp add: append_child_def nth_append)
  have "?a < length (heap ?w1)" by (simp add: len1)
  from fold_attaches [of ?a f "op ?a", OF step this, of xs] obtain cs where
    len2: "length (heap ?w1) \<le> length (heap ?w2)"
    and same2: "\<forall>i < length (heap ?w1). i \<noteq> ?a \<longrightarrow> heap ?w2 ! i = heap ?w1 ! i"
    and a2: "heap ?w2 ! ?a = (heap ?w1 ! ?a)\<lparr> children := children (heap ?w1 ! ?a) @ cs \<rparr>"
    and r2: "renders_list (heap ?w2) (length (heap ?w1)) ?a cs (map f xs)"
    by blast
  have rl: "renders_list (heap ?w2) ?a ?a cs (map f xs)"
    by (rule renders_frame(2) [OF r2 le_refl]) (simp_all add: len1 same_shape_def)
  have "renders (heap ?w2) ?a [p] ?a (Rose v (map f xs))"
    using rl a2 a1 len2 len1 by simp
  moreover have "heap ?w2 ! p = (heap w ! p)\<lparr> children := children (heap w ! p) @ [?a] \<rparr>"
    using same2 p p1 len1 by simp
  moreover have "\<forall>i < ?a. i \<noteq> p \<longrightarrow> heap ?w2 ! i = heap w ! i"
    using same2 o1 len1 by simp
  moreover have "?a < length (heap ?w2)" using len2 len1 by simp
  ultimately show ?thesis unfolding res attaches_def by blast
qed

lemma add_vm_attaches:
  assumes p: "p < length (heap w)"
  shows "attaches p (vm_tree v) w (add_vm p v w)"
proof -
  have "attaches p (Rose (MVm v) (map (\<lambda>x. undefined) [])) w
          (case Node [p] (MVm v) [] w of (c, w1) \<Rightarrow> fold (\<lambda>x. id) ([]::nat list) (append_child p c w1))"
    using p by (simp add: attaches_def Node_def append_child_def nth_append)
  then show ?thesis by (simp add: add_vm_def vm_tree_def)
qed

lemma add_host_attaches:
  assumes p: "p < length (heap w)"
  shows "attaches p (host_tree h) w (add_host p h w)"
  unfolding add_host_def host_tree_def
  by (rule node_with_children_attaches [OF add_vm_attaches p])

lemma add_h_cr_attaches:
  assumes p: "p < length (heap w)"
  shows "attaches p (h_cr_tree x) w (add_h_cr p x w)"
proof (cases x)
  case (AHost h)
  have "attaches p (Rose (MHost h) (map vm_tree (vm h))) w
          (case Node [p] (MHost h) [] w of (c, w1) \<Rightarrow> fold (add_vm c) (vm h) (append_child p c w1))"
    by (rule node_with_children_attaches [OF add_vm_attaches p])
  then show ?thesis using AHost by (simp add: add_h_cr_def h_cr_tree_def host_tree_def)
next
  case (ACompute cr)
  have "attaches p (Rose (MCompute cr) (map host_tree (host cr))) w
          (case Node [p] (MCompute cr) [] w of (c, w1) \<Rightarrow> fold (add_host c) (host cr) (append_child p c w1))"
    by (rule node_with_children_attaches [OF add_host_attaches p])
  then show ?thesis using ACompute by (simp add: add_h_cr_def h_cr_tree_def)
qed

lemma build_dc_tree_renders:
  "\<exists>t w'. build_dc_tree dc w = Inr (t, w') \<and> root t = length (heap w)
         \<and> renders (heap w') 0 [] (root t) (dc_tree dc)"
proof -
  let ?a = "length (heap w)"
  let ?n = "\<lparr> parents = [], node_value = MDatacenter dc, children = [], node_id = global_id w,
              visited = False, span_parent = None, distance = 0 \<rparr>"
  let ?w1 = "\<lparr> heap = heap w @ [?n], global_id = Suc (global_id w) \<rparr>"
  let ?xs = "get_child_objects (hostFolder dc) []"
  let ?w2 = "fold (add_h_cr ?a) ?xs ?w1"
  have "?a < length (heap ?w1)" by simp
  from fold_attaches [of ?a h_cr_tree "add_h_cr ?a", OF add_h_cr_attaches this, of ?xs]
  obtain cs where
    len2: "length (heap ?w1) \<le> length (heap ?w2)"
    and a2: "heap ?w2 ! ?a = (heap ?w1 ! ?a)\<lparr> children := children (heap ?w1 ! ?a) @ cs \<rparr>"
    and r2: "renders_list (heap ?w2) (length (heap ?w1)) ?a cs (map h_cr_tree ?xs)"
    by blast
  have rl: "renders_list (heap ?w2) 0 ?a cs (map h_cr_tree ?xs)"
    by (rule renders_frame(2) [OF r2 le_refl]) (simp_all add: same_shape_def)
  have rt: "renders (heap ?w2) 0 [] ?a (dc_tree dc)"
    using rl a2 len2 by (simp add: dc_tree_def)
  have isroot: "is_root (heap ?w2 ! ?a)" using a2 by (simp add: is_root_def)
  obtain h3 ys where b: "bfs (heap ?w2) ?a = (h3, ys)" by (cases "bfs (heap ?w2) ?a")
  let ?t = "fold (collect h3) ys \<lparr> root = ?a, nodes = [], leaf = [] \<rparr>"
  have res: "build_dc_tree dc w = Inr (?t, ?w2\<lparr> heap := h3 \<rparr>)"
    using isroot b
    by (simp add: build_dc_tree_def Node_def DCTree_init_def update_struct_def reset_visited_def Let_def)
  have "renders h3 0 [] ?a (dc_tree dc)"
    by (rule renders_frame(1) [OF rt _ le_refl]) (use bfs_shape [OF b] in simp_all)
  then show ?thesis using res by (simp add: fold_collect_root)
qed

lemma scenario_wiring:
  "fold (add_h_cr 0) (get_child_objects (hostFolder scenario_dc) [])
        \<lparr> heap = [fresh_node [] (MDatacenter scenario_dc) [] 1], global_id = 2 \<rparr> = scenario_wired"
  by (simp add: add_h_cr_def add_host_def add_vm_def append_child_def Node_def scenario_wired_def
      fresh_node_def scenario_dc_def cluster_def host1_def host2_def bare_host_def)

lemma scenario_traversal:
  "bfs (heap scenario_wired) 0 = (scenario_traversed, [0, 1, 6, 2, 4, 3, 5])"
  by (simp add: scenario_wired_def scenario_traversed_def fresh_node_def marked_def bfs_def)

lemma scenario_built:
  "build_dc_tree scenario_dc init_world
     = Inr (scenario_tree, scenario_wired\<lparr> heap := scenario_traversed \<rparr>)"
proof -
  have n: "Node [] (MDatacenter scenario_dc) [] init_world
             = (0, \<lparr> heap = [fresh_node [] (MDatacenter scenario_dc) [] 1], global_id = 2 \<rparr>)"
    by (simp add: Node_def init_world_def fresh_node_def)
  have r: "is_root (heap scenario_wired ! 0)"
    by (simp add: scenario_wired_def fresh_node_def is_root_def)
  have c: "fold (collect scenario_traversed) [0, 1, 6, 2, 4, 3, 5] \<lparr> root = 0, nodes = [], leaf = [] \<rparr>
             = scenario_tree"
    by (simp add: collect_def is_leaf_def scenario_traversed_def marked_def fresh_node_def
        scenario_tree_def)
  have "DCTree_init (heap scenario_wired) 0 = Inr (scenario_traversed, scenario_tree)"
    using r c by (simp add: DCTree_init_def update_struct_def reset_visited_def scenario_traversal)
  then show ?thesis
    unfolding build_dc_tree_def n prod.case Let_def scenario_wiring by simp
qed

text \<open>
  Claim C6. For every datacenter and every state of the store, \<^verbatim>\<open>_build_dc_tree\<close> returns a
  tree whose root is a new node that wraps the datacenter and has no parents, and the store
  below the root has the containment of \<open>dc_tree\<close>: each resolved host or compute resource
  is a child of the root, each virtual machine of a bare host a child of the host node, each
  member host of a compute resource a child of its node, and each virtual machine of such a
  host a child of the host node, which is its only parent. For the datacenter of the scenario
  the tree has 7 nodes and 3 leaves, the bare host and the two virtual machines.
\<close>

theorem inventory_builder_wiring:
  "(\<exists>t w'. build_dc_tree dc w = Inr (t, w') \<and> root t = length (heap w)
           \<and> renders (heap w') 0 [] (root t) (dc_tree dc))
   \<and> (\<exists>t w'. build_dc_tree scenario_dc init_world = Inr (t, w')
           \<and> length (nodes t) = 7 \<and> length (leaf t) = 3
           \<and> map (\<lambda>n. node_value (heap w' ! n)) (leaf t)
               = [MHost bare_host, MVm (VirtualMachine ''vm1''), MVm (VirtualMachine ''vm2'')])"
proof
  show "\<exists>t w'. build_dc_tree dc w = Inr (t, w') \<and> root t = length (heap w)
           \<and> renders (heap w') 0 [] (root t) (dc_tree dc)"
    by (rule build_dc_tree_renders)
next
  let ?w = "scenario_wired\<lparr> heap := scenario_traversed \<rparr>"
  have "build_dc_tree scenario_dc init_world = Inr (scenario_tree, ?w)"
    by (rule scenario_built)
  moreover have "length (nodes scenario_tree) = 7" "length (leaf scenario_tree) = 3"
    by (simp_all add: scenario_tree_def)
  moreover have "map (\<lambda>n. node_value (heap ?w ! n)) (leaf scenario_tree)
               = [MHost bare_host, MVm (VirtualMachine ''vm1''), MVm (VirtualMachine ''vm2'')]"
    by (simp add: scenario_tree_def scenario_traversed_def marked_def fresh_node_def)
  ultimately show "\<exists>t w'. build_dc_tree scenario_dc init_world = Inr (t, w')
           \<and> length (nodes t) = 7 \<and> length (leaf t) = 3
           \<and> map (\<lambda>n. node_value (heap w' ! n)) (leaf t)
               = [MHost bare_host, MVm (VirtualMachine ''vm1''), MVm (VirtualMachine ''vm2'')]"
    by (intro exI [of _ scenario_tree] exI [of _ ?w] conjI)
qed

section \<open>The table of statistics: properties\<close>

lemma new_row_ok:
  assumes "unit_label (counterId (series_id v)) = Some u" and "i < length (series_value v)"
  shows "new_row unit_label si v i data = Inr (data @ [(length data, mk_row unit_label si v None i)])"
  using assms by (simp add: new_row_def mk_row_def df_append_def Let_def)

lemma inner_loop_rows:
  assumes "unit_label (counterId (series_id v)) = Some u" and "\<forall>i \<in> set ks. i < length (series_value v)"
  shows "\<exists>data'. for_each (new_row unit_label si v) ks data = Inr data'
           \<and> map snd data' = map snd data @ map (mk_row unit_label si v None) ks"
  using assms(2)
proof (induction ks arbitrary: data)
  case Nil
  then show ?case by simp
next
  case (Cons k ks)
  from Cons.prems have k: "k < length (series_value v)" and rest: "\<forall>i \<in> set ks. i < length (series_value v)"
    by simp_all
  let ?d = "data @ [(length data, mk_row unit_label si v None k)]"
  from Cons.IH [OF rest, of ?d] obtain data' where
    "for_each (new_row unit_label si v) ks ?d = Inr data'"
    "map snd data' = map snd ?d @ map (mk_row unit_label si v None) ks" by blast
  then show ?case
    using new_row_ok [where unit_label = unit_label and v = v and u = u and i = k, OF assms(1) k]
    by simp
qed

lemma series_loop_rows:
  assumes "\<forall>v \<in> set vs. unit_label (counterId (series_id v)) \<noteq> None \<and> K \<le> length (series_value v)"
  shows "\<exists>data'. for_each (\<lambda>v. for_each (new_row unit_label si v) [0 ..< K]) vs data = Inr data'
           \<and> map snd data' = map snd data
                @ concat (map (\<lambda>v. map (mk_row unit_label si v None) [0 ..< K]) vs)"
  using assms
proof (induction vs arbitrary: data)
  case Nil
  then show ?case by simp
next
  case (Cons v vs)
  from Cons.prems obtain u where u: "unit_label (counterId (series_id v)) = Some u"
    and len: "K \<le> length (series_value v)" by auto
  from len have "\<forall>i \<in> set [0 ..< K]. i < length (series_value v)" by simp
  from inner_loop_rows [where unit_label = unit_label and v = v and u = u and ks = "[0 ..< K]"
      and si = si and data = data, OF u this] obtain d1 where
    d1: "for_each (new_row unit_label si v) [0 ..< K] data = Inr d1"
        "map snd d1 = map snd data @ map (mk_row unit_label si v None) [0 ..< K]" by blast
  from Cons.prems have "\<forall>v \<in> set vs. unit_label (counterId (series_id v)) \<noteq> None \<and> K \<le> length (series_value v)"
    by simp
  from Cons.IH [OF this, of d1] obtain d2 where
    "for_each (\<lambda>v. for_each (new_row unit_label si v) [0 ..< K]) vs d1 = Inr d2"
    "map snd d2 = map snd d1 @ concat (map (\<lambda>v. map (mk_row unit_label si v None) [0 ..< K]) vs)"
    by blast
  then show ?case using d1 by simp
qed

lemma collect_rows_single:
  assumes "\<forall>v \<in> set (metric_value r). unit_label (counterId (series_id v)) \<noteq> None
             \<and> length (sampleInfo r) \<le> length (series_value v)"
  shows "\<exists>data. collect_rows unit_label [r] = Inr data
           \<and> map snd data = expected_rows unit_label r None"
proof -
  from series_loop_rows [where unit_label = unit_label and vs = "metric_value r"
      and K = "length (sampleInfo r)" and si = "sampleInfo r" and data = "[]", OF assms] obtain d where
    "for_each (\<lambda>v. for_each (new_row unit_label (sampleInfo r) v) [0 ..< length (sampleInfo r)])
       (metric_value r) [] = Inr d"
    "map snd d = expected_rows unit_label r None"
    by (auto simp: expected_rows_def)
  then show ?thesis by (simp add: collect_rows_def)
qed

lemma length_expected_rows:
  "length (expected_rows unit_label r nm) = length (metric_value r) * length (sampleInfo r)"
  unfolding expected_rows_def
  by (induction "metric_value r" arbitrary: r) (simp_all add: length_concat comp_def sum_list_triv)

lemma mk_row_name:
  "(mk_row unit_label si v None i)\<lparr> row_name := Some s \<rparr> = mk_row unit_label si v (Some s) i"
  by (simp add: mk_row_def)

lemma expected_rows_name:
  "map (\<lambda>x. x\<lparr> row_name := Some s \<rparr>) (expected_rows unit_label r None)
     = expected_rows unit_label r (Some s)"
  by (simp add: expected_rows_def map_concat comp_def mk_row_name)

lemma map_snd_relabel: "map snd (map (\<lambda>(i, r). (i, f r)) xs) = map f (map snd xs)"
  by (induction xs) auto

lemma map_fst_relabel: "map fst (map (\<lambda>(i, r). (i, f r)) xs) = map fst xs"
  by (induction xs) auto

lemma map_key_relabel:
  "map (\<lambda>(i, r). row_key r) (zip ns (map snd xs)) = map (\<lambda>(i, r). row_key r) xs"
  if "length ns = length xs"
  using that by (induction ns xs rule: list_induct2) auto

lemma finish_frame:
  fixes data :: dataframe and s :: string
  defines "out \<equiv> set_name s (reset_index (sort_values_key data))"
  shows "length out = length data"
    and "map fst out = [0 ..< length data]"
    and "sorted (map (\<lambda>(i, r). row_key r) out)"
    and "mset (map snd out) = mset (map (\<lambda>x. x\<lparr> row_name := Some s \<rparr>) (map snd data))"
proof -
  let ?srt = "sort_key (\<lambda>(i, r). row_key r) data"
  let ?z = "zip [0 ..< length data] (map snd ?srt)"
  have out: "out = map (\<lambda>(i, r). (i, r\<lparr> row_name := Some s \<rparr>)) ?z"
    by (simp add: out_def set_name_def reset_index_def sort_values_key_def)
  have len: "length [0 ..< length data] = length ?srt" by simp
  show "length out = length data" by (simp add: out)
  show "map fst out = [0 ..< length data]"
    unfolding out map_fst_relabel by simp
  have snd_out: "map snd out = map (\<lambda>x. x\<lparr> row_name := Some s \<rparr>) (map snd ?srt)"
    unfolding out map_snd_relabel by simp
  have "map (\<lambda>(i, r). row_key r) out = map (\<lambda>(i, r). row_key r) ?z"
    unfolding out by (induction ?z) auto
  also have "\<dots> = map (\<lambda>(i, r). row_key r) ?srt"
    by (rule map_key_relabel [OF len])
  finally show "sorted (map (\<lambda>(i, r). row_key r) out)" by simp
  have "mset ?srt = mset data" by simp
  then have "mset (map snd ?srt) = mset (map snd data)" by (metis mset_map)
  then have "mset (map (\<lambda>x. x\<lparr> row_name := Some s \<rparr>) (map snd ?srt))
               = mset (map (\<lambda>x. x\<lparr> row_name := Some s \<rparr>) (map snd data))"
    by (metis mset_map)
  then show "mset (map snd out) = mset (map (\<lambda>x. x\<lparr> row_name := Some s \<rparr>) (map snd data))"
    unfolding snd_out .
qed

text \<open>
  Claim C8. Let the provider return one result \<open>r\<close> whose series are, in any order, one per
  pair of the counters \<open>cs\<close> and the instances \<open>insts\<close>, each as long as the list of
  samples, and let every counter be in the catalogue. Then \<^verbatim>\<open>latest_stats_by_specs\<close> returns
  a table of \<open>length cs * length insts * length (sampleInfo r)\<close> rows, labelled
  \<open>0, 1, 2, \<dots>\<close> without gaps, ordered by counter id, and holding exactly the rows
  (counter id, instance, timestamp, value, unit, entity name) of the result.
\<close>

theorem reshape_rows:
  assumes stats: "realtime_stats QueryPerf self ent counter_ids instances = Inr ([r], ws)"
    and pairs: "mset (map series_id (metric_value r))
                  = mset (concat (map (\<lambda>c. map (\<lambda>i. \<lparr> counterId = c, instance_sel = i \<rparr>) insts) cs))"
    and units: "\<forall>c \<in> set cs. unit_label c \<noteq> None"
    and parallel: "\<forall>v \<in> set (metric_value r). length (series_value v) = length (sampleInfo r)"
  shows "\<exists>data. latest_stats_by_specs QueryPerf unit_label name_of self ent counter_ids instances
                  = Inr (data, ws)
           \<and> length data = length cs * length insts * length (sampleInfo r)
           \<and> map fst data = [0 ..< length cs * length insts * length (sampleInfo r)]
           \<and> sorted (map (\<lambda>(i, x). row_key x) data)
           \<and> mset (map snd data) = mset (expected_rows unit_label r (Some (name_of ent)))"
proof -
  have ids: "set (map series_id (metric_value r))
               = set (concat (map (\<lambda>c. map (\<lambda>i. \<lparr> counterId = c, instance_sel = i \<rparr>) insts) cs))"
    using pairs by (metis set_mset_mset)
  have known: "unit_label (counterId (series_id v)) \<noteq> None" if "v \<in> set (metric_value r)" for v
  proof -
    from that have "series_id v \<in> set (map series_id (metric_value r))" by simp
    with ids obtain c where "c \<in> set cs" "counterId (series_id v) = c" by auto
    with units show ?thesis by blast
  qed
  have "length (map series_id (metric_value r))
          = length (concat (map (\<lambda>c. map (\<lambda>i. \<lparr> counterId = c, instance_sel = i \<rparr>) insts) cs))"
    using pairs by (metis size_mset)
  then have nseries: "length (metric_value r) = length cs * length insts"
    by (simp add: length_concat comp_def sum_list_triv)
  from known parallel
  have "\<forall>v \<in> set (metric_value r). unit_label (counterId (series_id v)) \<noteq> None
             \<and> length (sampleInfo r) \<le> length (series_value v)" by simp
  from collect_rows_single [where unit_label = unit_label and r = r, OF this] obtain d where
    d: "collect_rows unit_label [r] = Inr d" "map snd d = expected_rows unit_label r None" by blast
  let ?out = "set_name (name_of ent) (reset_index (sort_values_key d))"
  have res: "latest_stats_by_specs QueryPerf unit_label name_of self ent counter_ids instances
               = Inr (?out, ws)"
    using stats d(1) by (simp add: latest_stats_by_specs_def)
  have len_d: "length d = length cs * length insts * length (sampleInfo r)"
    using d(2) length_expected_rows [of unit_label r None] nseries by (metis length_map)
  have l: "length ?out = length cs * length insts * length (sampleInfo r)"
    using finish_frame(1) [of "name_of ent" d] len_d by simp
  have f: "map fst ?out = [0 ..< length cs * length insts * length (sampleInfo r)]"
    using finish_frame(2) [of "name_of ent" d] len_d by simp
  have so: "sorted (map (\<lambda>(i, x). row_key x) ?out)"
    by (rule finish_frame(3))
  have nm: "map (\<lambda>x. x\<lparr> row_name := Some (name_of ent) \<rparr>) (map snd d)
              = expected_rows unit_label r (Some (name_of ent))"
    unfolding d(2) by (rule expected_rows_name)
  have ms: "mset (map snd ?out) = mset (expected_rows unit_label r (Some (name_of ent)))"
    unfolding finish_frame(4) nm ..
  show ?thesis using res l f so ms by (intro exI [of _ ?out] conjI)
qed

text \<open>Two counters, two instances and two samples give eight rows.\<close>

theorem reshape_rows_witness:
  "\<exists>data. latest_stats_by_specs (\<lambda>specs. [sample_result]) sample_units (\<lambda>e. ''vm-0'') scenario_monitor 0
              (Some [6, 2]) (Some ['''', ''0'']) = Inr (data, [])
          \<and> length data = 8 \<and> map fst data = [0 ..< 8]
          \<and> sorted (map (\<lambda>(i, x). row_key x) data)
          \<and> mset (map snd data) = mset (expected_rows sample_units sample_result (Some ''vm-0''))"
proof -
  have stats: "realtime_stats (\<lambda>specs. [sample_result]) scenario_monitor 0 (Some [6, 2]) (Some ['''', ''0''])
                 = Inr ([sample_result], [])"
    by (simp add: realtime_stats_def build_query_def scenario_monitor_def interval_in_def)
  have pairs: "mset (map series_id (metric_value sample_result))
                 = mset (concat (map (\<lambda>c. map (\<lambda>i. \<lparr> counterId = c, instance_sel = i \<rparr>) ['''', ''0'']) [6, 2]))"
    by (simp add: sample_result_def)
  have units: "\<forall>c \<in> set [6, 2]. sample_units c \<noteq> None"
    by (simp add: sample_units_def)
  have parallel: "\<forall>v \<in> set (metric_value sample_result).
                    length (series_value v) = length (sampleInfo sample_result)"
    by (simp add: sample_result_def)
  have k: "length (sampleInfo sample_result) = 2" by (simp add: sample_result_def)
  from reshape_rows [where name_of = "\<lambda>e. ''vm-0''", OF stats pairs units parallel]
  show ?thesis by (simp add: k)
qed

end
